theory Spec2Isabelle
  imports Main "HOL-Library.AList" "HOL-Library.Sublist"
begin

section \<open>The event hub of mulchd (cmd/mulchd: Hub, HubClient)\<close>

text \<open>
  The Go source keeps the set of subscribers in \<^verbatim>\<open>Hub.clients\<close>, a
  \<^verbatim>\<open>map[*HubClient]bool\<close>, and gives every HubClient a channel of its own,
  \<^verbatim>\<open>Messages\<close>, made by \<^verbatim>\<open>make(chan *mulch.Message)\<close>: an unbuffered channel.
  Pointers are indices into two heaps (lists that only grow), so a pointer handed out by
  an allocation is fresh by construction. The message type \<open>'m\<close> stands for
  \<^verbatim>\<open>*mulch.Message\<close>, whose declaration is in another package.
\<close>

type_synonym client_ptr = nat
type_synonym chan_ptr = nat
type_synonym tid = nat

datatype panic = CloseOfClosedChannel | CloseOfNilChannel | SendOnClosedChannel | NilDereference

text \<open>
  An unbuffered channel holds no message. Its state is whether it has been closed, and,
  for the statements below, the messages that were handed over to its receiver so far
  (oldest first).
\<close>

record 'm chan =
  closed :: bool
  received :: "'m list"

text \<open>
  \<^verbatim>\<open>type HubClient struct { Messages chan *mulch.Message; ClientInfo string; hub *Hub }\<close>.
  The application has one Hub (\<^verbatim>\<open>app.Hub = NewHub()\<close>), so the back pointer
  \<^verbatim>\<open>hub\<close> always is that Hub and is left out.
\<close>

record HubClient =
  Messages :: chan_ptr
  ClientInfo :: string

text \<open>
  The Hub and the heap. \<open>clients\<close> is \<^verbatim>\<open>h.clients\<close>, an association list with
  distinct keys. The three intake channels \<^verbatim>\<open>broadcast\<close>, \<^verbatim>\<open>register\<close> and
  \<^verbatim>\<open>unregister\<close> are unbuffered as well and hold nothing: a send on one of them is
  the hand-over of \<open>step\<close> below.
\<close>

record 'm world =
  clients :: "(client_ptr \<times> bool) list"
  objs :: "HubClient list"
  chans :: "'m chan list"

definition deref :: "'a list \<Rightarrow> nat \<Rightarrow> 'a option" where
  "deref heap p = (if p < length heap then Some (heap ! p) else None)"

text \<open>\<^verbatim>\<open>NewHub\<close>: an empty map; nothing has been allocated yet.\<close>

definition NewHub :: "'m world" where
  "NewHub = \<lparr>clients = [], objs = [], chans = []\<rparr>"

text \<open>
  \<^verbatim>\<open>close(ch)\<close>. Go panics when the channel is nil (here: outside the heap) or
  already closed.
\<close>

definition close_chan :: "chan_ptr \<Rightarrow> 'm world \<Rightarrow> panic + 'm world" where
  "close_chan ch w =
     (case deref (chans w) ch of
        None \<Rightarrow> Inl CloseOfNilChannel
      | Some q \<Rightarrow>
          if closed q then Inl CloseOfClosedChannel
          else Inr (w\<lparr>chans := (chans w)[ch := q\<lparr>closed := True\<rparr>]\<rparr>))"

text \<open>
  \<^verbatim>\<open>select { case ch <- message: ... default: ... }\<close> on an unbuffered channel. A
  send on a closed channel panics; the send goes through when a receiver is waiting on
  the channel right now (\<open>rdy\<close>, decided by the consumer's goroutine), and otherwise
  the default branch is taken. A nil channel is never ready. The boolean tells which
  branch ran.
\<close>

definition try_send :: "chan_ptr \<Rightarrow> 'm \<Rightarrow> bool \<Rightarrow> 'm world \<Rightarrow> panic + (bool \<times> 'm world)" where
  "try_send ch message rdy w =
     (case deref (chans w) ch of
        None \<Rightarrow> Inr (False, w)
      | Some q \<Rightarrow>
          if closed q then Inl SendOnClosedChannel
          else if rdy then
            Inr (True, w\<lparr>chans := (chans w)[ch := q\<lparr>received := received q @ [message]\<rparr>]\<rparr>)
          else Inr (False, w))"

text \<open>
  The body of \<^verbatim>\<open>for client := range h.clients\<close> in the broadcast case of
  \<^verbatim>\<open>Hub.Run\<close>: try the send; in the default branch close the channel, then delete
  the client from the map.
\<close>

definition fanout_one :: "'m \<Rightarrow> (chan_ptr \<Rightarrow> bool) \<Rightarrow> client_ptr \<Rightarrow> 'm world \<Rightarrow> panic + 'm world" where
  "fanout_one message ready client w =
     (case deref (objs w) client of
        None \<Rightarrow> Inl NilDereference
      | Some hc \<Rightarrow>
          (case try_send (Messages hc) message (ready (Messages hc)) w of
             Inl p \<Rightarrow> Inl p
           | Inr (True, w') \<Rightarrow> Inr w'
           | Inr (False, w') \<Rightarrow>
               (case close_chan (Messages hc) w' of
                  Inl p \<Rightarrow> Inl p
                | Inr w'' \<Rightarrow> Inr (w''\<lparr>clients := AList.delete client (clients w'')\<rparr>))))"

text \<open>
  The range loop visits every key that is in the map when the loop starts exactly once
  (the body deletes the current key only). \<open>fanout\<close> takes the keys in the order
  of the visit.
\<close>

fun fanout :: "'m \<Rightarrow> (chan_ptr \<Rightarrow> bool) \<Rightarrow> client_ptr list \<Rightarrow> 'm world \<Rightarrow> panic + 'm world" where
  "fanout message ready [] w = Inr w"
| "fanout message ready (client # rest) w =
     (case fanout_one message ready client w of
        Inl p \<Rightarrow> Inl p
      | Inr w' \<Rightarrow> fanout message ready rest w')"

text \<open>
  A request received by the \<^verbatim>\<open>select\<close> of \<^verbatim>\<open>Hub.Run\<close>, and the case of the
  \<^verbatim>\<open>select\<close> that handles it.
\<close>

datatype 'm request = Reg client_ptr | Unreg client_ptr | Bcast 'm

fun Run_case :: "'m request \<Rightarrow> (chan_ptr \<Rightarrow> bool) \<Rightarrow> 'm world \<Rightarrow> panic + 'm world" where
  "Run_case (Reg client) ready w = Inr (w\<lparr>clients := AList.update client True (clients w)\<rparr>)"
| "Run_case (Unreg client) ready w =
     (case map_of (clients w) client of
        None \<Rightarrow> Inr w
      | Some ok \<Rightarrow>
          (case deref (objs w) client of
             None \<Rightarrow> Inl NilDereference
           | Some hc \<Rightarrow> close_chan (Messages hc) (w\<lparr>clients := AList.delete client (clients w)\<rparr>)))"
| "Run_case (Bcast message) ready w = fanout message ready (map fst (clients w)) w"

text \<open>
  The first statement of \<^verbatim>\<open>Hub.Register\<close>: a new HubClient with a new channel.
\<close>

definition new_HubClient :: "string \<Rightarrow> 'm world \<Rightarrow> client_ptr \<times> 'm world" where
  "new_HubClient info w =
     (length (objs w),
      w\<lparr>objs := objs w @ [\<lparr>Messages = length (chans w), ClientInfo = info\<rparr>],
        chans := chans w @ [\<lparr>closed = False, received = []\<rparr>]\<rparr>)"

subsection \<open>Goroutines\<close>

text \<open>
  \<^verbatim>\<open>NewApp\<close> starts \<^verbatim>\<open>go app.Hub.Run()\<close> once. Any number of other goroutines call
  \<^verbatim>\<open>Register\<close>, \<^verbatim>\<open>Broadcast\<close> and \<^verbatim>\<open>Unregister\<close>. A calling goroutine is idle
  (outside the hub's code), blocked in the send statement of the method it called, or
  past the send and about to return. The dispatch loop is at its \<^verbatim>\<open>select\<close> or
  holds the request it has just received.
\<close>

datatype 'm pc =
    Idle
  | Register_send client_ptr
  | Register_return client_ptr
  | Broadcast_send 'm
  | Broadcast_return
  | Unregister_send client_ptr
  | Unregister_return

datatype 'm loop_pc = Select | Case "'m request"

record 'm config =
  world :: "'m world"
  loop :: "'m loop_pc"
  goroutines :: "tid \<Rightarrow> 'm pc"

datatype 'm call = Register string | Broadcast 'm | Unregister client_ptr

text \<open>
  What the scheduler can do next: let an idle goroutine call a method, complete the send
  of a blocked goroutine with the receive of the \<^verbatim>\<open>select\<close>, run the case of the
  \<^verbatim>\<open>select\<close> for the request received (with the readiness of every consumer at
  that moment), or let a goroutine return from its call.
\<close>

datatype 'm action =
    Call tid "'m call"
  | Handoff tid
  | Dispatch "chan_ptr \<Rightarrow> bool"
  | Return tid

datatype 'a result = Disabled | Panicked panic | Ok 'a

definition set_pc :: "tid \<Rightarrow> 'm pc \<Rightarrow> 'm config \<Rightarrow> 'm config" where
  "set_pc t p s = s\<lparr>goroutines := (goroutines s)(t := p)\<rparr>"

text \<open>The request a blocked goroutine is sending, and where it continues after the send.\<close>

fun sending :: "'m pc \<Rightarrow> ('m request \<times> 'm pc) option" where
  "sending (Register_send client) = Some (Reg client, Register_return client)"
| "sending (Broadcast_send message) = Some (Bcast message, Broadcast_return)"
| "sending (Unregister_send client) = Some (Unreg client, Unregister_return)"
| "sending _ = None"

fun returning :: "'m pc \<Rightarrow> bool" where
  "returning (Register_return client) = True"
| "returning Broadcast_return = True"
| "returning Unregister_return = True"
| "returning _ = False"

text \<open>
  One step of the program.
  \<^item> \<^verbatim>\<open>Register(info)\<close> is \<^verbatim>\<open>client := &HubClient{...}\<close> (the call, which
    allocates), \<^verbatim>\<open>h.register <- client\<close> (the goroutine waits in \<open>Register_send\<close>
    for the hand-over) and \<^verbatim>\<open>return client\<close>.
  \<^item> \<^verbatim>\<open>Broadcast(message)\<close> is \<^verbatim>\<open>h.broadcast <- message\<close> and the return.
  \<^item> \<^verbatim>\<open>hc.Unregister()\<close> is \<^verbatim>\<open>hc.hub.unregister <- hc\<close> and the return; it reads
    \<^verbatim>\<open>hc.hub\<close>, so its receiver is a HubClient of the heap.
  \<^item> \<^verbatim>\<open>Run\<close> is \<^verbatim>\<open>for { select { ... } }\<close>: the \<^verbatim>\<open>select\<close> receives from one of
    the goroutines blocked in a send (\<open>Handoff\<close>; when several are blocked, Go picks
    any of them, here the scheduler does), then the case for what was received runs
    (\<open>Dispatch\<close>), and the loop is back at its \<^verbatim>\<open>select\<close>.
  The three channels are unbuffered, so a send completes only together with the
  receive: \<open>Handoff\<close> needs the loop at its \<^verbatim>\<open>select\<close>.
\<close>

fun step :: "'m action \<Rightarrow> 'm config \<Rightarrow> 'm config result" where
  "step (Call t (Register info)) s =
     (if goroutines s t = Idle then
        (case new_HubClient info (world s) of
           (client, w) \<Rightarrow> Ok (set_pc t (Register_send client) (s\<lparr>world := w\<rparr>)))
      else Disabled)"
| "step (Call t (Broadcast message)) s =
     (if goroutines s t = Idle then Ok (set_pc t (Broadcast_send message) s) else Disabled)"
| "step (Call t (Unregister client)) s =
     (if goroutines s t = Idle \<and> client < length (objs (world s))
      then Ok (set_pc t (Unregister_send client) s) else Disabled)"
| "step (Handoff t) s =
     (case (loop s, sending (goroutines s t)) of
        (Select, Some (rq, p)) \<Rightarrow> Ok (set_pc t p (s\<lparr>loop := Case rq\<rparr>))
      | _ \<Rightarrow> Disabled)"
| "step (Dispatch ready) s =
     (case loop s of
        Select \<Rightarrow> Disabled
      | Case rq \<Rightarrow>
          (case Run_case rq ready (world s) of
             Inl p \<Rightarrow> Panicked p
           | Inr w \<Rightarrow> Ok (s\<lparr>world := w, loop := Select\<rparr>)))"
| "step (Return t) s =
     (if returning (goroutines s t) then Ok (set_pc t Idle s) else Disabled)"

text \<open>A run: the actions one after the other; it stops at the first that fails.\<close>

fun exec :: "'m action list \<Rightarrow> 'm config \<Rightarrow> 'm config result" where
  "exec [] s = Ok s"
| "exec (a # as) s =
     (case step a s of
        Ok s' \<Rightarrow> exec as s'
      | Panicked p \<Rightarrow> Panicked p
      | Disabled \<Rightarrow> Disabled)"

text \<open>
  The configuration after \<^verbatim>\<open>app.Hub = NewHub(); go app.Hub.Run()\<close>, and the
  configurations the program can reach from it.
\<close>

definition init :: "'m config" where
  "init = \<lparr>world = NewHub, loop = Select, goroutines = (\<lambda>t. Idle)\<rparr>"

definition reachable :: "'m config \<Rightarrow> bool" where
  "reachable s \<longleftrightarrow> (\<exists>as. exec as init = Ok s)"

subsection \<open>Observations and invariants\<close>

text \<open>
  The channel of a client, whether a client is a key of \<^verbatim>\<open>h.clients\<close>, and whether
  the consumer of a client is waiting on its channel.
\<close>

definition queue :: "'m world \<Rightarrow> client_ptr \<Rightarrow> 'm chan option" where
  "queue w client =
     (case deref (objs w) client of
        None \<Rightarrow> None
      | Some hc \<Rightarrow> deref (chans w) (Messages hc))"

definition active :: "'m world \<Rightarrow> client_ptr \<Rightarrow> bool" where
  "active w client \<longleftrightarrow> map_of (clients w) client \<noteq> None"

definition listening :: "(chan_ptr \<Rightarrow> bool) \<Rightarrow> 'm world \<Rightarrow> client_ptr \<Rightarrow> bool" where
  "listening ready w client =
     (case deref (objs w) client of
        None \<Rightarrow> False
      | Some hc \<Rightarrow> ready (Messages hc))"

text \<open>
  The heap as \<^verbatim>\<open>Register\<close> builds it: the n-th HubClient owns the n-th channel.
  The keys of the map are distinct, and every key is a HubClient whose channel is open.
\<close>

definition wf_world :: "'m world \<Rightarrow> bool" where
  "wf_world w \<longleftrightarrow>
     length (chans w) = length (objs w)
     \<and> (\<forall>c < length (objs w). Messages (objs w ! c) = c)
     \<and> distinct (map fst (clients w))
     \<and> (\<forall>c. active w c \<longrightarrow> c < length (objs w) \<and> \<not> closed (chans w ! c))"

text \<open>What one attempt of the fan-out does to the channel it is made on.\<close>

definition sent_to :: "'m \<Rightarrow> (chan_ptr \<Rightarrow> bool) \<Rightarrow> chan_ptr \<Rightarrow> 'm chan \<Rightarrow> 'm chan" where
  "sent_to message ready ch q =
     (if ready ch then q\<lparr>received := received q @ [message]\<rparr> else q\<lparr>closed := True\<rparr>)"

text \<open>What a case of the \<^verbatim>\<open>select\<close> does to the active set and to each channel.\<close>

fun active_after :: "'m request \<Rightarrow> (chan_ptr \<Rightarrow> bool) \<Rightarrow> 'm world \<Rightarrow> client_ptr \<Rightarrow> bool" where
  "active_after (Reg c0) ready w c = (active w c \<or> c = c0)"
| "active_after (Unreg c0) ready w c = (active w c \<and> c \<noteq> c0)"
| "active_after (Bcast message) ready w c = (active w c \<and> ready c)"

fun chan_after :: "'m request \<Rightarrow> (chan_ptr \<Rightarrow> bool) \<Rightarrow> 'm world \<Rightarrow> chan_ptr \<Rightarrow> 'm chan" where
  "chan_after (Reg c0) ready w i = chans w ! i"
| "chan_after (Unreg c0) ready w i =
     (if i = c0 \<and> active w c0 then (chans w ! i)\<lparr>closed := True\<rparr> else chans w ! i)"
| "chan_after (Bcast message) ready w i =
     (if active w i then sent_to message ready i (chans w ! i) else chans w ! i)"

text \<open>
  A client whose registration request is still on its way: its goroutine is blocked in
  the send of \<^verbatim>\<open>Register\<close>, or the loop holds the request.
\<close>

definition pending :: "'m config \<Rightarrow> client_ptr \<Rightarrow> bool" where
  "pending s c \<longleftrightarrow> (\<exists>t. goroutines s t = Register_send c) \<or> loop s = Case (Reg c)"

fun in_Register :: "'m pc \<Rightarrow> bool" where
  "in_Register (Register_send c) = True"
| "in_Register (Register_return c) = True"
| "in_Register _ = False"

text \<open>
  The invariant of the whole program. A client is pending, active, or gone (its channel
  closed); a pending client is allocated, not active, its channel open; each client is
  sent by one goroutine, once.
\<close>

definition hub_inv :: "'m config \<Rightarrow> bool" where
  "hub_inv s \<longleftrightarrow>
     wf_world (world s)
     \<and> (\<forall>c. pending s c \<longrightarrow>
            c < length (objs (world s)) \<and> \<not> active (world s) c \<and> \<not> closed (chans (world s) ! c))
     \<and> (\<forall>t t' c. goroutines s t = Register_send c \<longrightarrow> goroutines s t' = Register_send c \<longrightarrow> t = t')
     \<and> (\<forall>t c. goroutines s t = Register_send c \<longrightarrow> loop s \<noteq> Case (Reg c))
     \<and> (\<forall>t c. goroutines s t = Register_return c \<longrightarrow>
            c < length (objs (world s)) \<and> (\<forall>t'. goroutines s t' \<noteq> Register_send c))
     \<and> (\<forall>c < length (objs (world s)).
            pending s c \<or> active (world s) c \<or> closed (chans (world s) ! c))"

subsection \<open>Runs\<close>

text \<open>
  What the consumer of a client has received so far; a client that was removed from the
  active set (or never will be in it again); the message a step fans out; the messages
  fanned out during a run, all of them and those fanned out while a given client was in
  the active set; and a run during which the consumer of a client is waiting at every
  fan-out and no unregister request for the client is handled.
\<close>

definition delivered :: "'m world \<Rightarrow> client_ptr \<Rightarrow> 'm list" where
  "delivered w client = (case queue w client of None \<Rightarrow> [] | Some q \<Rightarrow> received q)"

definition gone :: "'m config \<Rightarrow> client_ptr \<Rightarrow> bool" where
  "gone s c \<longleftrightarrow> c < length (objs (world s)) \<and> \<not> pending s c \<and> \<not> active (world s) c"

fun fanning :: "'m action \<Rightarrow> 'm config \<Rightarrow> 'm option" where
  "fanning (Dispatch ready) s = (case loop s of Case (Bcast message) \<Rightarrow> Some message | _ \<Rightarrow> None)"
| "fanning _ s = None"

fun fanned_out :: "'m action list \<Rightarrow> 'm config \<Rightarrow> 'm list" where
  "fanned_out [] s = []"
| "fanned_out (a # as) s =
     (case step a s of
        Ok s' \<Rightarrow>
          (case fanning a s of Some message \<Rightarrow> [message] | None \<Rightarrow> []) @ fanned_out as s'
      | _ \<Rightarrow> [])"

fun fanned_to :: "client_ptr \<Rightarrow> 'm action list \<Rightarrow> 'm config \<Rightarrow> 'm list" where
  "fanned_to c [] s = []"
| "fanned_to c (a # as) s =
     (case step a s of
        Ok s' \<Rightarrow>
          (case fanning a s of
             Some message \<Rightarrow> if active (world s) c then [message] else []
           | None \<Rightarrow> []) @ fanned_to c as s'
      | _ \<Rightarrow> [])"

fun keeping_up :: "client_ptr \<Rightarrow> 'm action \<Rightarrow> 'm config \<Rightarrow> bool" where
  "keeping_up c (Dispatch ready) s =
     (case loop s of
        Case (Bcast message) \<Rightarrow> listening ready (world s) c
      | Case (Unreg c') \<Rightarrow> c' \<noteq> c
      | _ \<Rightarrow> True)"
| "keeping_up c _ s = True"

fun keeps_up :: "client_ptr \<Rightarrow> 'm action list \<Rightarrow> 'm config \<Rightarrow> bool" where
  "keeps_up c [] s = True"
| "keeps_up c (a # as) s =
     (case step a s of
        Ok s' \<Rightarrow> keeping_up c a s \<and> keeps_up c as s'
      | _ \<Rightarrow> True)"

section \<open>The fan-out and the cases of the select\<close>

lemma wf_NewHub: "wf_world NewHub"
  by (simp add: wf_world_def NewHub_def active_def)

lemma active_iff: "active w c \<longleftrightarrow> c \<in> fst ` set (clients w)"
  by (simp add: active_def map_of_eq_None_iff)

lemma queue_wf: "wf_world w \<Longrightarrow> queue w c = (if c < length (objs w) then Some (chans w ! c) else None)"
  by (simp add: queue_def deref_def wf_world_def)

lemma fanout_one_ready:
  assumes "c < length (objs w)" "Messages (objs w ! c) = c" "c < length (chans w)"
    "\<not> closed (chans w ! c)" "ready c"
  shows "fanout_one m ready c w =
    Inr (w\<lparr>chans := (chans w)[c := (chans w ! c)\<lparr>received := received (chans w ! c) @ [m]\<rparr>]\<rparr>)"
  using assms by (simp add: fanout_one_def try_send_def deref_def)

lemma fanout_one_stalled:
  assumes "c < length (objs w)" "Messages (objs w ! c) = c" "c < length (chans w)"
    "\<not> closed (chans w ! c)" "\<not> ready c"
  shows "fanout_one m ready c w =
    Inr (w\<lparr>chans := (chans w)[c := (chans w ! c)\<lparr>closed := True\<rparr>],
           clients := AList.delete c (clients w)\<rparr>)"
  using assms by (simp add: fanout_one_def try_send_def close_chan_def deref_def)

lemma fanout_effect:
  assumes "distinct ks"
    and "\<forall>k \<in> set ks. k < length (objs w) \<and> Messages (objs w ! k) = k \<and> k < length (chans w)
           \<and> \<not> closed (chans w ! k)"
  shows "\<exists>w'. fanout m ready ks w = Inr w'
     \<and> objs w' = objs w
     \<and> length (chans w') = length (chans w)
     \<and> (\<forall>i < length (chans w). chans w' ! i = (if i \<in> set ks then sent_to m ready i (chans w ! i) else chans w ! i))
     \<and> clients w' = filter (\<lambda>p. fst p \<notin> set ks \<or> ready (fst p)) (clients w)"
  using assms
proof (induction ks arbitrary: w)
  case Nil
  then show ?case by simp
next
  case (Cons k ks)
  let ?q = "chans w ! k"
  define w1 where "w1 = (if ready k then w\<lparr>chans := (chans w)[k := ?q\<lparr>received := received ?q @ [m]\<rparr>]\<rparr>
     else w\<lparr>chans := (chans w)[k := ?q\<lparr>closed := True\<rparr>], clients := AList.delete k (clients w)\<rparr>)"
  have k: "k < length (objs w)" "Messages (objs w ! k) = k" "k < length (chans w)" "\<not> closed ?q"
    using Cons.prems(2) by auto
  have one: "fanout_one m ready k w = Inr w1"
    using k by (simp add: w1_def fanout_one_ready fanout_one_stalled)
  have w1: "objs w1 = objs w" "length (chans w1) = length (chans w)"
    "chans w1 = (chans w)[k := sent_to m ready k ?q]"
    "clients w1 = filter (\<lambda>p. fst p \<noteq> k \<or> ready k) (clients w)"
    by (auto simp: w1_def sent_to_def AList.delete_eq case_prod_unfold intro: filter_cong)
  have kn: "k \<notin> set ks" "distinct ks" using Cons.prems(1) by auto
  have pre: "\<forall>j \<in> set ks. j < length (objs w1) \<and> Messages (objs w1 ! j) = j \<and> j < length (chans w1)
           \<and> \<not> closed (chans w1 ! j)"
  proof
    fix j assume j: "j \<in> set ks"
    then have "j \<noteq> k" using kn by auto
    then have "chans w1 ! j = chans w ! j" by (simp add: w1)
    then show "j < length (objs w1) \<and> Messages (objs w1 ! j) = j \<and> j < length (chans w1)
           \<and> \<not> closed (chans w1 ! j)"
      using Cons.prems(2) j by (simp add: w1)
  qed
  from Cons.IH[OF kn(2) pre] obtain w' where w': "fanout m ready ks w1 = Inr w'"
    "objs w' = objs w1" "length (chans w') = length (chans w1)"
    "\<forall>i < length (chans w1). chans w' ! i = (if i \<in> set ks then sent_to m ready i (chans w1 ! i) else chans w1 ! i)"
    "clients w' = filter (\<lambda>p. fst p \<notin> set ks \<or> ready (fst p)) (clients w1)"
    by blast
  have "fanout m ready (k # ks) w = Inr w'" using one w'(1) by simp
  moreover have "objs w' = objs w" using w' w1 by simp
  moreover have "length (chans w') = length (chans w)" using w' w1 by simp
  moreover have "\<forall>i < length (chans w). chans w' ! i = (if i \<in> set (k # ks) then sent_to m ready i (chans w ! i) else chans w ! i)"
    using w'(4) kn(1) k(3) by (auto simp: w1 nth_list_update)
  moreover have "clients w' = filter (\<lambda>p. fst p \<notin> set (k # ks) \<or> ready (fst p)) (clients w)"
    unfolding w'(5) w1(4) filter_filter by (rule filter_cong) auto
  ultimately show ?case by blast
qed

lemma active_chans_update [simp]: "active (w\<lparr>chans := x\<rparr>) c = active w c"
  by (simp add: active_def)

lemma active_delete: "active (w\<lparr>clients := AList.delete k (clients w)\<rparr>) c \<longleftrightarrow> active w c \<and> c \<noteq> k"
  by (auto simp: active_def AList.delete_conv)

lemma active_update: "active (w\<lparr>clients := AList.update k v (clients w)\<rparr>) c \<longleftrightarrow> active w c \<or> c = k"
  by (auto simp: active_def AList.update_conv')

lemma Run_case_Reg:
  assumes "wf_world w" "c0 < length (objs w)" "\<not> closed (chans w ! c0)"
  shows "wf_world (w\<lparr>clients := AList.update c0 True (clients w)\<rparr>)"
  using assms by (auto simp: wf_world_def AList.distinct_update active_update)

lemma Run_case_Unreg:
  assumes "wf_world w"
  shows "Run_case (Unreg c0) ready w =
     Inr (if active w c0
          then w\<lparr>clients := AList.delete c0 (clients w),
                 chans := (chans w)[c0 := (chans w ! c0)\<lparr>closed := True\<rparr>]\<rparr>
          else w)"
proof (cases "active w c0")
  case False
  then show ?thesis by (simp add: active_def)
next
  case True
  then obtain ok where ok: "map_of (clients w) c0 = Some ok" by (auto simp: active_def)
  from True assms have "c0 < length (objs w)" "c0 < length (chans w)" "Messages (objs w ! c0) = c0"
    "\<not> closed (chans w ! c0)"
    by (auto simp: wf_world_def)
  then show ?thesis using True ok by (simp add: deref_def close_chan_def)
qed

lemma Run_case_effect:
  assumes wf: "wf_world w"
    and reg: "\<And>c0. rq = Reg c0 \<Longrightarrow> c0 < length (objs w) \<and> \<not> closed (chans w ! c0)"
  shows "\<exists>w'. Run_case rq ready w = Inr w' \<and> wf_world w' \<and> objs w' = objs w
      \<and> length (chans w') = length (chans w)
      \<and> (\<forall>c. active w' c \<longleftrightarrow> active_after rq ready w c)
      \<and> (\<forall>i < length (chans w). chans w' ! i = chan_after rq ready w i)"
proof (cases rq)
  case (Reg c0)
  with reg have "c0 < length (objs w)" "\<not> closed (chans w ! c0)" by auto
  from Run_case_Reg[OF wf this] show ?thesis
    by (simp add: Reg active_update)
next
  case (Unreg c0)
  show ?thesis
  proof (cases "active w c0")
    case False
    then show ?thesis using wf Run_case_Unreg[OF wf, of c0 ready]
      by (auto simp del: Run_case.simps simp: Unreg)
  next
    case True
    let ?w' = "w\<lparr>clients := AList.delete c0 (clients w),
                 chans := (chans w)[c0 := (chans w ! c0)\<lparr>closed := True\<rparr>]\<rparr>"
    have "wf_world ?w'"
      using wf
      by (auto simp: wf_world_def active_delete AList.distinct_delete nth_list_update)
    moreover have "\<forall>c. active ?w' c \<longleftrightarrow> active w c \<and> c \<noteq> c0"
      by (simp add: active_delete)
    ultimately show ?thesis using True Run_case_Unreg[OF wf, of c0 ready]
      by (simp del: Run_case.simps add: Unreg nth_list_update)
  qed
next
  case (Bcast m)
  let ?ks = "map fst (clients w)"
  have d: "distinct ?ks" using wf by (simp add: wf_world_def)
  have pre: "\<forall>k \<in> set ?ks. k < length (objs w) \<and> Messages (objs w ! k) = k \<and> k < length (chans w)
           \<and> \<not> closed (chans w ! k)"
    using wf by (auto simp: wf_world_def active_iff)
  from fanout_effect[OF d pre, of m ready] obtain w' where w': "fanout m ready ?ks w = Inr w'"
    "objs w' = objs w" "length (chans w') = length (chans w)"
    "\<forall>i < length (chans w). chans w' ! i = (if i \<in> set ?ks then sent_to m ready i (chans w ! i) else chans w ! i)"
    "clients w' = filter (\<lambda>p. fst p \<notin> set ?ks \<or> ready (fst p)) (clients w)"
    by blast
  have cl: "clients w' = filter (\<lambda>p. ready (fst p)) (clients w)"
    unfolding w'(5) by (rule filter_cong) auto
  have act: "\<forall>c. active w' c \<longleftrightarrow> active w c \<and> ready c"
    by (auto simp: active_iff cl)
  have d': "distinct (map fst (clients w'))"
    unfolding cl using d by (simp add: distinct_map_filter)
  have o': "length (chans w') = length (objs w')" "\<forall>c < length (objs w'). Messages (objs w' ! c) = c"
    using wf by (simp_all add: wf_world_def w'(2,3))
  have "\<forall>c. active w' c \<longrightarrow> c < length (objs w') \<and> \<not> closed (chans w' ! c)"
  proof (intro allI impI)
    fix c assume "active w' c"
    then have c: "c \<in> fst ` set (clients w')" by (simp add: active_iff)
    then have a: "c \<in> set ?ks" "ready c" by (auto simp: cl)
    then have b: "c < length (objs w)" "c < length (chans w)" "\<not> closed (chans w ! c)"
      using pre by auto
    then have "chans w' ! c = sent_to m ready c (chans w ! c)" using w'(4) a by simp
    then show "c < length (objs w') \<and> \<not> closed (chans w' ! c)"
      using a b by (simp add: w' sent_to_def)
  qed
  with d' o' have "wf_world w'"
    unfolding wf_world_def by blast
  then show ?thesis using w'(1,2,3,4) act by (auto simp: Bcast active_iff)
qed

text \<open>
  Go does not fix the order in which a range loop visits the keys of a map. The result
  of the fan-out does not depend on it: visiting the keys in any order gives what the
  order of the association list gives.
\<close>

lemma fanout_any_order:
  assumes wf: "wf_world w" and d: "distinct ks" and ks: "set ks = fst ` set (clients w)"
  shows "fanout message ready ks w = fanout message ready (map fst (clients w)) w"
proof -
  let ?ks' = "map fst (clients w)"
  have d': "distinct ?ks'" using wf by (simp add: wf_world_def)
  have pre': "\<forall>k \<in> set ?ks'. k < length (objs w) \<and> Messages (objs w ! k) = k \<and> k < length (chans w)
           \<and> \<not> closed (chans w ! k)"
    using wf by (auto simp: wf_world_def active_iff)
  have pre: "\<forall>k \<in> set ks. k < length (objs w) \<and> Messages (objs w ! k) = k \<and> k < length (chans w)
           \<and> \<not> closed (chans w ! k)"
    using pre' ks by simp
  from fanout_effect[OF d pre, of message ready] obtain w1 where w1:
    "fanout message ready ks w = Inr w1" "objs w1 = objs w" "length (chans w1) = length (chans w)"
    "\<forall>i < length (chans w). chans w1 ! i = (if i \<in> set ks then sent_to message ready i (chans w ! i) else chans w ! i)"
    "clients w1 = filter (\<lambda>p. fst p \<notin> set ks \<or> ready (fst p)) (clients w)"
    by blast
  from fanout_effect[OF d' pre', of message ready] obtain w2 where w2:
    "fanout message ready ?ks' w = Inr w2" "objs w2 = objs w" "length (chans w2) = length (chans w)"
    "\<forall>i < length (chans w). chans w2 ! i = (if i \<in> set ?ks' then sent_to message ready i (chans w ! i) else chans w ! i)"
    "clients w2 = filter (\<lambda>p. fst p \<notin> set ?ks' \<or> ready (fst p)) (clients w)"
    by blast
  have "chans w1 = chans w2"
    using w1(3,4) w2(3,4) ks by (intro nth_equalityI) simp_all
  moreover have "clients w1 = clients w2" using w1(5) w2(5) ks by simp
  ultimately have "w1 = w2" using w1(2) w2(2) by simp
  then show ?thesis using w1(1) w2(1) by simp
qed

section \<open>The invariant\<close>

lemma ex_fun_upd:
  assumes "f t = a" "a \<noteq> b"
  shows "(\<exists>u. (f(t := x)) u = b) \<longleftrightarrow> (\<exists>u. f u = b) \<or> x = b"
  using assms by (metis fun_upd_apply)

lemma hub_inv_init: "hub_inv init"
  using wf_NewHub by (simp add: hub_inv_def init_def pending_def) (simp add: NewHub_def)

lemma wf_new_HubClient:
  assumes "wf_world w"
  shows "wf_world (snd (new_HubClient info w))"
  using assms
  by (auto simp: wf_world_def new_HubClient_def active_def nth_append less_Suc_eq)

lemma hub_inv_Call_Register:
  assumes "hub_inv s" "step (Call t (Register info)) s = Ok s'"
  shows "hub_inv s'"
proof -
  let ?w = "world s"
  let ?c = "length (objs ?w)"
  from assms(2) have idle: "goroutines s t = Idle"
    and s': "s' = set_pc t (Register_send ?c) (s\<lparr>world := snd (new_HubClient info ?w)\<rparr>)"
    by (auto simp: new_HubClient_def split: if_splits)
  have wf: "wf_world ?w" using assms(1) by (simp add: hub_inv_def)
  have len: "length (chans ?w) = ?c" using wf by (simp add: wf_world_def)
  have w': "world s' = snd (new_HubClient info ?w)" "loop s' = loop s"
    "goroutines s' = (goroutines s)(t := Register_send ?c)"
    by (simp_all add: s' set_pc_def)
  have o: "objs (world s') = objs ?w @ [\<lparr>Messages = ?c, ClientInfo = info\<rparr>]"
    "chans (world s') = chans ?w @ [\<lparr>closed = False, received = []\<rparr>]"
    "clients (world s') = clients ?w"
    by (simp_all add: w' new_HubClient_def len)
  have lo: "length (objs (world s')) = Suc ?c" by (simp add: o)
  have act: "\<And>c. active (world s') c = active ?w c" by (simp add: active_def o)
  have old: "\<And>c. c < ?c \<Longrightarrow> chans (world s') ! c = chans ?w ! c"
    by (simp add: o nth_append len)
  have new: "chans (world s') ! ?c = \<lparr>closed = False, received = []\<rparr>"
    using len by (simp add: o nth_append)
  have nact: "\<not> active ?w ?c" using wf by (auto simp: wf_world_def)
  have bound: "\<And>u c. goroutines s u = Register_send c \<Longrightarrow> c < ?c"
    "\<And>c. loop s = Case (Reg c) \<Longrightarrow> c < ?c"
    using assms(1) by (auto simp: hub_inv_def pending_def)
  have pend: "\<And>c. pending s' c \<longleftrightarrow> pending s c \<or> c = ?c"
    using ex_fun_upd[where f="goroutines s" and t=t and a=Idle and x="Register_send ?c"] idle
    by (auto simp: pending_def w')
  have 1: "wf_world (world s')" using wf_new_HubClient[OF wf] by (simp add: w')
  have 2: "\<forall>c. pending s' c \<longrightarrow>
            c < length (objs (world s')) \<and> \<not> active (world s') c \<and> \<not> closed (chans (world s') ! c)"
  proof (intro allI impI)
    fix c assume "pending s' c"
    then consider "pending s c" | "c = ?c" by (auto simp: pend)
    then show "c < length (objs (world s')) \<and> \<not> active (world s') c \<and> \<not> closed (chans (world s') ! c)"
    proof cases
      case 1
      then have "c < ?c \<and> \<not> active ?w c \<and> \<not> closed (chans ?w ! c)"
        using assms(1) by (simp add: hub_inv_def)
      then show ?thesis by (simp add: act old lo)
    next
      case 2
      then show ?thesis using nact by (simp add: act new lo)
    qed
  qed
  have 3: "\<forall>u u' c. goroutines s' u = Register_send c \<longrightarrow> goroutines s' u' = Register_send c \<longrightarrow> u = u'"
    using assms(1) bound(1) by (auto simp: hub_inv_def w' split: if_splits)
  have 4: "\<forall>u c. goroutines s' u = Register_send c \<longrightarrow> loop s' \<noteq> Case (Reg c)"
    using assms(1) bound(2) by (auto simp: hub_inv_def w' split: if_splits)
  have 5: "\<forall>u c. goroutines s' u = Register_return c \<longrightarrow>
            c < length (objs (world s')) \<and> (\<forall>u'. goroutines s' u' \<noteq> Register_send c)"
  proof (intro allI impI)
    fix u c assume "goroutines s' u = Register_return c"
    then have "goroutines s u = Register_return c" by (auto simp: w'(3) split: if_splits)
    then have "c < ?c" "\<forall>u'. goroutines s u' \<noteq> Register_send c"
      using assms(1) unfolding hub_inv_def by blast+
    then show "c < length (objs (world s')) \<and> (\<forall>u'. goroutines s' u' \<noteq> Register_send c)"
      by (auto simp: w'(3) lo)
  qed
  have 6: "\<forall>c < length (objs (world s')).
            pending s' c \<or> active (world s') c \<or> closed (chans (world s') ! c)"
  proof (intro allI impI)
    fix c assume "c < length (objs (world s'))"
    then consider "c < ?c" | "c = ?c" unfolding lo by linarith
    then show "pending s' c \<or> active (world s') c \<or> closed (chans (world s') ! c)"
    proof cases
      case 1
      then have "pending s c \<or> active ?w c \<or> closed (chans ?w ! c)"
        using assms(1) by (simp add: hub_inv_def)
      then show ?thesis using 1 by (auto simp: pend act old)
    next
      case 2
      then show ?thesis by (simp add: pend)
    qed
  qed
  from 1 2 3 4 5 6 show ?thesis unfolding hub_inv_def by blast
qed

lemma hub_invD:
  assumes "hub_inv s"
  shows "wf_world (world s)"
    and "\<And>c. pending s c \<Longrightarrow> c < length (objs (world s)) \<and> \<not> active (world s) c \<and> \<not> closed (chans (world s) ! c)"
    and "\<And>t t' c. goroutines s t = Register_send c \<Longrightarrow> goroutines s t' = Register_send c \<Longrightarrow> t = t'"
    and "\<And>t c. goroutines s t = Register_send c \<Longrightarrow> loop s \<noteq> Case (Reg c)"
    and "\<And>t c. goroutines s t = Register_return c \<Longrightarrow> c < length (objs (world s)) \<and> (\<forall>t'. goroutines s t' \<noteq> Register_send c)"
    and "\<And>c. c < length (objs (world s)) \<Longrightarrow> pending s c \<or> active (world s) c \<or> closed (chans (world s) ! c)"
  using assms unfolding hub_inv_def by blast+

lemma hub_invI:
  assumes "wf_world (world s)"
    and "\<And>c. pending s c \<Longrightarrow> c < length (objs (world s)) \<and> \<not> active (world s) c \<and> \<not> closed (chans (world s) ! c)"
    and "\<And>t t' c. goroutines s t = Register_send c \<Longrightarrow> goroutines s t' = Register_send c \<Longrightarrow> t = t'"
    and "\<And>t c. goroutines s t = Register_send c \<Longrightarrow> loop s \<noteq> Case (Reg c)"
    and "\<And>t c. goroutines s t = Register_return c \<Longrightarrow> c < length (objs (world s)) \<and> (\<forall>t'. goroutines s t' \<noteq> Register_send c)"
    and "\<And>c. c < length (objs (world s)) \<Longrightarrow> pending s c \<or> active (world s) c \<or> closed (chans (world s) ! c)"
  shows "hub_inv s"
  unfolding hub_inv_def using assms by blast

lemma hub_inv_set_pc:
  assumes "hub_inv s" "\<not> in_Register (goroutines s t)" "\<not> in_Register p"
  shows "hub_inv (set_pc t p s)"
proof -
  have g: "\<And>u c. goroutines (set_pc t p s) u = Register_send c \<longleftrightarrow> goroutines s u = Register_send c"
    "\<And>u c. goroutines (set_pc t p s) u = Register_return c \<longleftrightarrow> goroutines s u = Register_return c"
    using assms(2,3) by (auto simp: set_pc_def)
  have w: "world (set_pc t p s) = world s" "loop (set_pc t p s) = loop s"
    by (simp_all add: set_pc_def)
  have p: "\<And>c. pending (set_pc t p s) c = pending s c"
    by (simp add: pending_def g w)
  show ?thesis using assms(1) unfolding hub_inv_def g w p .
qed

lemma hub_inv_Return_Register:
  assumes "hub_inv s" "goroutines s t = Register_return c"
  shows "hub_inv (set_pc t Idle s)"
proof -
  have g: "\<And>u c. goroutines (set_pc t Idle s) u = Register_send c \<longleftrightarrow> goroutines s u = Register_send c"
    "\<And>u c. goroutines (set_pc t Idle s) u = Register_return c \<Longrightarrow> goroutines s u = Register_return c"
    using assms(2) by (auto simp: set_pc_def split: if_splits)
  have w: "world (set_pc t Idle s) = world s" "loop (set_pc t Idle s) = loop s"
    by (simp_all add: set_pc_def)
  have p: "\<And>c. pending (set_pc t Idle s) c = pending s c"
    by (simp add: pending_def g w)
  note I = hub_invD[OF assms(1)]
  show ?thesis
  proof (rule hub_invI)
    show "wf_world (world (set_pc t Idle s))" using I(1) by (simp add: w)
    show "\<And>c. pending (set_pc t Idle s) c \<Longrightarrow> c < length (objs (world (set_pc t Idle s))) \<and> \<not> active (world (set_pc t Idle s)) c \<and> \<not> closed (chans (world (set_pc t Idle s)) ! c)"
      using I(2) by (simp add: p w)
    show "\<And>u u' c. goroutines (set_pc t Idle s) u = Register_send c \<Longrightarrow> goroutines (set_pc t Idle s) u' = Register_send c \<Longrightarrow> u = u'"
      using I(3) by (simp add: g(1))
    show "\<And>u c. goroutines (set_pc t Idle s) u = Register_send c \<Longrightarrow> loop (set_pc t Idle s) \<noteq> Case (Reg c)"
      using I(4) by (simp add: g(1) w)
    show "\<And>u c. goroutines (set_pc t Idle s) u = Register_return c \<Longrightarrow> c < length (objs (world (set_pc t Idle s))) \<and> (\<forall>t'. goroutines (set_pc t Idle s) t' \<noteq> Register_send c)"
      using I(5) g(2) unfolding g(1) w by blast
    show "\<And>c. c < length (objs (world (set_pc t Idle s))) \<Longrightarrow> pending (set_pc t Idle s) c \<or> active (world (set_pc t Idle s)) c \<or> closed (chans (world (set_pc t Idle s)) ! c)"
      using I(6) by (simp add: p w)
  qed
qed

lemma hub_inv_Handoff_Register:
  assumes inv: "hub_inv s" and t: "goroutines s t = Register_send c" and sel: "loop s = Select"
  shows "hub_inv (set_pc t (Register_return c) (s\<lparr>loop := Case (Reg c)\<rparr>))"
    (is "hub_inv ?s'")
proof -
  note I = hub_invD[OF inv]
  have w: "world ?s' = world s" "loop ?s' = Case (Reg c)"
    "goroutines ?s' = (goroutines s)(t := Register_return c)"
    by (simp_all add: set_pc_def)
  have uniq: "\<And>u. goroutines s u = Register_send c \<Longrightarrow> u = t" using I(3) t by blast
  have snd: "\<And>u c'. goroutines ?s' u = Register_send c' \<longleftrightarrow> u \<noteq> t \<and> goroutines s u = Register_send c'"
    by (auto simp: w)
  have pend: "\<And>c'. pending ?s' c' \<longleftrightarrow> pending s c'"
  proof -
    fix c'
    show "pending ?s' c' \<longleftrightarrow> pending s c'"
    proof (cases "c' = c")
      case True
      then show ?thesis using t by (auto simp: pending_def w(2))
    next
      case False
      then have "\<And>u. goroutines s u = Register_send c' \<Longrightarrow> u \<noteq> t" using t by auto
      then have "(\<exists>u. u \<noteq> t \<and> goroutines s u = Register_send c') \<longleftrightarrow> (\<exists>u. goroutines s u = Register_send c')"
        by blast
      then show ?thesis using False sel by (simp add: pending_def snd w(2))
    qed
  qed
  have 1: "wf_world (world ?s')" using I(1) by (simp add: w)
  have 2: "\<forall>c'. pending ?s' c' \<longrightarrow>
            c' < length (objs (world ?s')) \<and> \<not> active (world ?s') c' \<and> \<not> closed (chans (world ?s') ! c')"
    using I(2) unfolding pend w by blast
  have 3: "\<forall>u u' c'. goroutines ?s' u = Register_send c' \<longrightarrow> goroutines ?s' u' = Register_send c' \<longrightarrow> u = u'"
    using I(3) unfolding snd by blast
  have 4: "\<forall>u c'. goroutines ?s' u = Register_send c' \<longrightarrow> loop ?s' \<noteq> Case (Reg c')"
    using uniq unfolding snd w(1,2) by auto
  have 5: "\<forall>u c'. goroutines ?s' u = Register_return c' \<longrightarrow>
            c' < length (objs (world ?s')) \<and> (\<forall>u'. goroutines ?s' u' \<noteq> Register_send c')"
  proof (intro allI impI)
    fix u c' assume a: "goroutines ?s' u = Register_return c'"
    show "c' < length (objs (world ?s')) \<and> (\<forall>u'. goroutines ?s' u' \<noteq> Register_send c')"
    proof (cases "u = t")
      case True
      then have "c' = c" using a by (simp add: w)
      moreover have "pending s c" using t by (auto simp: pending_def)
      ultimately show ?thesis using I(2)[of c] uniq unfolding snd w(1,2) by blast
    next
      case False
      then have "goroutines s u = Register_return c'" using a by (simp add: w)
      then show ?thesis using I(5) unfolding snd w(1,2) by blast
    qed
  qed
  have 6: "\<forall>c' < length (objs (world ?s')).
            pending ?s' c' \<or> active (world ?s') c' \<or> closed (chans (world ?s') ! c')"
    using I(6) unfolding pend w by blast
  from 1 2 3 4 5 6 show ?thesis unfolding hub_inv_def by blast
qed

lemma hub_inv_Handoff_other:
  assumes inv: "hub_inv s" and t: "\<not> in_Register (goroutines s t)" "\<not> in_Register p"
    and sel: "loop s = Select" and rq: "\<And>c. rq \<noteq> Reg c"
  shows "hub_inv (set_pc t p (s\<lparr>loop := Case rq\<rparr>))"
proof -
  have "hub_inv (s\<lparr>loop := Case rq\<rparr>)"
    using inv sel rq unfolding hub_inv_def pending_def by simp
  then show ?thesis using t by (intro hub_inv_set_pc) simp_all
qed

lemma hub_inv_Dispatch:
  assumes inv: "hub_inv s" and rq: "loop s = Case rq"
  shows "\<exists>w'. Run_case rq ready (world s) = Inr w'
           \<and> hub_inv (s\<lparr>world := w', loop := Select\<rparr>)
           \<and> objs w' = objs (world s) \<and> length (chans w') = length (chans (world s))
           \<and> (\<forall>c. active w' c \<longleftrightarrow> active_after rq ready (world s) c)
           \<and> (\<forall>i < length (chans (world s)). chans w' ! i = chan_after rq ready (world s) i)"
proof -
  note I = hub_invD[OF inv]
  let ?w = "world s"
  have len: "length (chans ?w) = length (objs ?w)" using I(1) by (simp add: wf_world_def)
  have open_active: "\<And>c. active ?w c \<Longrightarrow> \<not> closed (chans ?w ! c)"
    using I(1) by (simp add: wf_world_def)
  have reg: "\<And>c0. rq = Reg c0 \<Longrightarrow> c0 < length (objs ?w) \<and> \<not> closed (chans ?w ! c0)"
    using I(2) rq by (simp add: pending_def)
  from Run_case_effect[OF I(1) reg, where ready=ready] obtain w' where w':
    "Run_case rq ready ?w = Inr w'" "wf_world w'" "objs w' = objs ?w"
    "length (chans w') = length (chans ?w)"
    "\<And>c. active w' c \<longleftrightarrow> active_after rq ready ?w c"
    "\<And>i. i < length (chans ?w) \<Longrightarrow> chans w' ! i = chan_after rq ready ?w i"
    by blast
  let ?s' = "s\<lparr>world := w', loop := Select\<rparr>"
  have pend': "\<And>c. pending ?s' c \<longleftrightarrow> (\<exists>t. goroutines s t = Register_send c)"
    by (simp add: pending_def)
  have "hub_inv ?s'"
  proof (rule hub_invI)
    show "wf_world (world ?s')" using w'(2) by simp
  next
    fix c assume "pending ?s' c"
    then obtain t where t: "goroutines s t = Register_send c" by (auto simp: pend')
    then have p: "pending s c" by (auto simp: pending_def)
    from I(2)[OF p] have c: "c < length (objs ?w)" "\<not> active ?w c" "\<not> closed (chans ?w ! c)"
      by simp_all
    have ne: "rq \<noteq> Reg c" using I(4)[OF t] rq by auto
    have "\<not> active_after rq ready ?w c" using c(2) ne by (cases rq) auto
    moreover have "chan_after rq ready ?w c = chans ?w ! c" using c(2) by (cases rq) auto
    ultimately show "c < length (objs (world ?s')) \<and> \<not> active (world ?s') c
        \<and> \<not> closed (chans (world ?s') ! c)"
      using c w'(6)[of c] len by (simp add: w'(3,5))
  next
    fix t t' c assume "goroutines ?s' t = Register_send c" "goroutines ?s' t' = Register_send c"
    then show "t = t'" using I(3) by simp
  next
    fix t c assume "goroutines ?s' t = Register_send c"
    then show "loop ?s' \<noteq> Case (Reg c)" by simp
  next
    fix t c assume "goroutines ?s' t = Register_return c"
    then show "c < length (objs (world ?s')) \<and> (\<forall>t'. goroutines ?s' t' \<noteq> Register_send c)"
      using I(5) by (simp add: w'(3))
  next
    fix c assume "c < length (objs (world ?s'))"
    then have c: "c < length (objs ?w)" "c < length (chans ?w)" by (simp_all add: w'(3) len)
    have ch: "chans w' ! c = chan_after rq ready ?w c" using w'(6) c by simp
    from I(6)[OF c(1)] consider "\<exists>t. goroutines s t = Register_send c" | "rq = Reg c"
      | "active ?w c" | "closed (chans ?w ! c)"
      using rq by (auto simp: pending_def)
    then have "(\<exists>t. goroutines s t = Register_send c) \<or> active_after rq ready ?w c
        \<or> closed (chan_after rq ready ?w c)"
    proof cases
      case 1 then show ?thesis by blast
    next
      case 2 then show ?thesis by simp
    next
      case 3 then show ?thesis by (cases rq) (auto simp: sent_to_def)
    next
      case 4 then show ?thesis by (cases rq) (auto simp: sent_to_def)
    qed
    then show "pending ?s' c \<or> active (world ?s') c \<or> closed (chans (world ?s') ! c)"
      by (simp add: pend' w'(5) ch)
  qed
  then show ?thesis using w' by blast
qed

lemma step_hub_inv:
  assumes "hub_inv s" "step a s = Ok s'"
  shows "hub_inv s'"
proof (cases a)
  case (Call t call)
  show ?thesis
  proof (cases call)
    case (Register info)
    then show ?thesis using assms Call hub_inv_Call_Register by blast
  next
    case (Broadcast m)
    then have "goroutines s t = Idle" "s' = set_pc t (Broadcast_send m) s"
      using assms(2) Call by (auto split: if_splits)
    then show ?thesis using assms(1) by (simp add: hub_inv_set_pc)
  next
    case (Unregister c)
    then have "goroutines s t = Idle" "s' = set_pc t (Unregister_send c) s"
      using assms(2) Call by (auto split: if_splits)
    then show ?thesis using assms(1) by (simp add: hub_inv_set_pc)
  qed
next
  case (Handoff t)
  then obtain rq p where h: "loop s = Select" "sending (goroutines s t) = Some (rq, p)"
    "s' = set_pc t p (s\<lparr>loop := Case rq\<rparr>)"
    using assms(2) by (auto split: loop_pc.splits option.splits)
  show ?thesis
  proof (cases "goroutines s t")
    case (Register_send c)
    then show ?thesis using h assms(1) by (auto intro: hub_inv_Handoff_Register)
  next
    case (Broadcast_send m)
    then show ?thesis using h assms(1) by (auto intro!: hub_inv_Handoff_other)
  next
    case (Unregister_send c)
    then show ?thesis using h assms(1) by (auto intro!: hub_inv_Handoff_other)
  qed (use h in simp_all)
next
  case (Dispatch ready)
  then obtain rq where rq: "loop s = Case rq" using assms(2) by (cases "loop s") auto
  from hub_inv_Dispatch[OF assms(1) rq, of ready] obtain w' where
    "Run_case rq ready (world s) = Inr w'" "hub_inv (s\<lparr>world := w', loop := Select\<rparr>)"
    by blast
  then show ?thesis using assms(2) Dispatch rq by simp
next
  case (Return t)
  then have r: "returning (goroutines s t)" "s' = set_pc t Idle s"
    using assms(2) by (auto split: if_splits)
  show ?thesis
  proof (cases "goroutines s t")
    case (Register_return c)
    then show ?thesis using r assms(1) by (simp add: hub_inv_Return_Register)
  qed (use r assms(1) in \<open>simp_all add: hub_inv_set_pc\<close>)
qed

lemma step_no_panic:
  assumes "hub_inv s"
  shows "step a s \<noteq> Panicked p"
proof (cases a)
  case (Dispatch ready)
  show ?thesis
  proof (cases "loop s")
    case Select
    then show ?thesis using Dispatch by simp
  next
    case (Case rq)
    from hub_inv_Dispatch[OF assms Case, of ready] show ?thesis using Dispatch Case by auto
  qed
next
  case (Call t call)
  then show ?thesis by (cases call) (auto simp: new_HubClient_def)
next
  case (Handoff t)
  then show ?thesis by (auto split: loop_pc.splits option.splits)
qed auto

lemma exec_hub_inv:
  assumes "hub_inv s" "exec as s = Ok s'"
  shows "hub_inv s'"
  using assms
proof (induction as arbitrary: s)
  case Nil
  then show ?case by simp
next
  case (Cons a as)
  then show ?case by (auto split: result.splits dest: step_hub_inv)
qed

lemma reachable_hub_inv: "reachable s \<Longrightarrow> hub_inv s"
  unfolding reachable_def using exec_hub_inv[OF hub_inv_init] by blast

section \<open>Steps and what they deliver\<close>

lemma listening_wf:
  assumes "wf_world w" "c < length (objs w)"
  shows "listening ready w c = ready c"
  using assms by (simp add: listening_def deref_def wf_world_def)

lemma Dispatch_effect:
  assumes inv: "hub_inv s" and rq: "loop s = Case rq"
  shows "\<exists>s'. step (Dispatch ready) s = Ok s' \<and> hub_inv s' \<and> loop s' = Select
           \<and> goroutines s' = goroutines s \<and> objs (world s') = objs (world s)
           \<and> (\<forall>c. active (world s') c \<longleftrightarrow> active_after rq ready (world s) c)
           \<and> (\<forall>c < length (objs (world s)).
                 queue (world s') c = Some (chan_after rq ready (world s) c))"
proof -
  from hub_inv_Dispatch[OF inv rq, of ready] obtain w' where w':
    "Run_case rq ready (world s) = Inr w'" "hub_inv (s\<lparr>world := w', loop := Select\<rparr>)"
    "objs w' = objs (world s)" "length (chans w') = length (chans (world s))"
    "\<forall>c. active w' c \<longleftrightarrow> active_after rq ready (world s) c"
    "\<forall>i < length (chans (world s)). chans w' ! i = chan_after rq ready (world s) i"
    by blast
  let ?s' = "s\<lparr>world := w', loop := Select\<rparr>"
  have st: "step (Dispatch ready) s = Ok ?s'" using rq w'(1) by simp
  have wf': "wf_world w'" using hub_invD(1)[OF w'(2)] by simp
  have len: "length (chans (world s)) = length (objs (world s))"
    using hub_invD(1)[OF inv] by (simp add: wf_world_def)
  have "\<forall>c < length (objs (world s)). queue (world ?s') c = Some (chan_after rq ready (world s) c)"
    using w'(6) len by (simp add: queue_wf[OF wf'] w'(3))
  then show ?thesis using st w'(2,3,5) by (intro exI[of _ ?s']) simp
qed

lemma active_queue_open:
  assumes "hub_inv s" "active (world s) c"
  shows "c < length (objs (world s))" "queue (world s) c = Some (chans (world s) ! c)"
    "\<not> closed (chans (world s) ! c)"
  using hub_invD(1)[OF assms(1)] assms(2) by (simp_all add: wf_world_def queue_wf)

lemma step_world:
  assumes "step a s = Ok s'"
  shows "(\<exists>t info. a = Call t (Register info) \<and> world s' = snd (new_HubClient info (world s))
            \<and> loop s' = loop s)
       \<or> (\<exists>ready rq. a = Dispatch ready \<and> loop s = Case rq \<and> loop s' = Select
            \<and> goroutines s' = goroutines s
            \<and> Run_case rq ready (world s) = Inr (world s'))
       \<or> ((\<forall>ready. a \<noteq> Dispatch ready) \<and> world s' = world s)"
proof (cases a)
  case (Call t call)
  then show ?thesis using assms
    by (cases call) (auto simp: set_pc_def new_HubClient_def split: if_splits)
next
  case (Handoff t)
  then show ?thesis using assms
    by (auto simp: set_pc_def split: loop_pc.splits option.splits)
next
  case (Dispatch ready)
  then show ?thesis using assms
    by (auto split: loop_pc.splits sum.splits)
next
  case (Return t)
  then show ?thesis using assms by (auto simp: set_pc_def split: if_splits)
qed

lemma queue_new_HubClient:
  assumes "wf_world w"
  shows "queue (snd (new_HubClient info w)) c =
     (if c = length (objs w) then Some \<lparr>closed = False, received = []\<rparr> else queue w c)"
  using assms
  by (auto simp: queue_def deref_def new_HubClient_def wf_world_def nth_append less_Suc_eq)

lemma active_new_HubClient: "active (snd (new_HubClient info w)) c = active w c"
  by (simp add: active_def new_HubClient_def)

lemma delivered_new_HubClient:
  assumes "wf_world w"
  shows "delivered (snd (new_HubClient info w)) c = delivered w c"
  using assms by (simp add: delivered_def queue_new_HubClient) (simp add: queue_wf)

text \<open>What a step delivers to a client.\<close>

lemma step_delivered:
  assumes inv: "hub_inv s" and st: "step a s = Ok s'"
  shows "delivered (world s') c = delivered (world s) c @
     (case a of
        Dispatch ready \<Rightarrow>
          (case fanning a s of
             Some message \<Rightarrow>
               if active (world s) c \<and> listening ready (world s) c then [message] else []
           | None \<Rightarrow> [])
      | _ \<Rightarrow> [])"
proof -
  have wf: "wf_world (world s)" using inv by (rule hub_invD(1))
  from step_world[OF st] consider
    (reg) t info where "a = Call t (Register info)" "world s' = snd (new_HubClient info (world s))"
  | (disp) ready rq where "a = Dispatch ready" "loop s = Case rq"
  | (other) "\<forall>ready. a \<noteq> Dispatch ready" "world s' = world s"
    by blast
  then show ?thesis
  proof cases
    case reg
    then show ?thesis by (simp add: delivered_new_HubClient[OF wf])
  next
    case other
    then show ?thesis by (cases a) simp_all
  next
    case disp
    from Dispatch_effect[OF inv disp(2), of ready] st disp(1) have e:
      "hub_inv s'" "objs (world s') = objs (world s)"
      "\<And>c. c < length (objs (world s)) \<Longrightarrow>
         queue (world s') c = Some (chan_after rq ready (world s) c)"
      by auto
    have wf': "wf_world (world s')" using e(1) by (rule hub_invD(1))
    show ?thesis
    proof (cases "c < length (objs (world s))")
      case False
      then have "\<not> active (world s) c" using wf by (auto simp: wf_world_def)
      then show ?thesis using False disp
        by (cases rq) (simp_all add: delivered_def queue_wf[OF wf] queue_wf[OF wf'] e(2))
    next
      case True
      have l: "listening ready (world s) c = ready c" using wf True by (rule listening_wf)
      show ?thesis using True disp e(3)[OF True]
        by (cases rq) (simp_all add: delivered_def queue_wf[OF wf] l sent_to_def)
    qed
  qed
qed

lemma fanout_attempts:
  assumes inv: "hub_inv s" and l: "loop s = Case (Bcast message)"
  shows "\<exists>s'. step (Dispatch ready) s = Ok s' \<and> goroutines s' = goroutines s
     \<and> (\<forall>c. active (world s) c \<longrightarrow>
          (\<exists>q. queue (world s) c = Some q \<and> \<not> closed q
             \<and> (if listening ready (world s) c
                then active (world s') c
                  \<and> queue (world s') c = Some (q\<lparr>received := received q @ [message]\<rparr>)
                else \<not> active (world s') c
                  \<and> queue (world s') c = Some (q\<lparr>closed := True\<rparr>))))
     \<and> (\<forall>c. \<not> active (world s) c \<longrightarrow>
          \<not> active (world s') c \<and> queue (world s') c = queue (world s) c)"
proof -
  have wf: "wf_world (world s)" using inv by (rule hub_invD(1))
  from Dispatch_effect[OF inv l, of ready] obtain s' where s':
    "step (Dispatch ready) s = Ok s'" "hub_inv s'" "goroutines s' = goroutines s"
    "objs (world s') = objs (world s)"
    "\<And>c. active (world s') c \<longleftrightarrow> active (world s) c \<and> ready c"
    "\<And>c. c < length (objs (world s)) \<Longrightarrow>
       queue (world s') c = Some (chan_after (Bcast message) ready (world s) c)"
    by auto
  have wf': "wf_world (world s')" using s'(2) by (rule hub_invD(1))
  have a: "\<forall>c. active (world s) c \<longrightarrow>
          (\<exists>q. queue (world s) c = Some q \<and> \<not> closed q
             \<and> (if listening ready (world s) c
                then active (world s') c
                  \<and> queue (world s') c = Some (q\<lparr>received := received q @ [message]\<rparr>)
                else \<not> active (world s') c
                  \<and> queue (world s') c = Some (q\<lparr>closed := True\<rparr>)))"
  proof (intro allI impI)
    fix c assume act: "active (world s) c"
    note c = active_queue_open[OF inv act]
    have l: "listening ready (world s) c = ready c" using wf c(1) by (rule listening_wf)
    show "\<exists>q. queue (world s) c = Some q \<and> \<not> closed q
             \<and> (if listening ready (world s) c
                then active (world s') c
                  \<and> queue (world s') c = Some (q\<lparr>received := received q @ [message]\<rparr>)
                else \<not> active (world s') c
                  \<and> queue (world s') c = Some (q\<lparr>closed := True\<rparr>))"
      using c act s'(6)[OF c(1)] by (simp add: l s'(5) sent_to_def)
  qed
  have b: "\<forall>c. \<not> active (world s) c \<longrightarrow>
          \<not> active (world s') c \<and> queue (world s') c = queue (world s) c"
  proof (intro allI impI)
    fix c assume nact: "\<not> active (world s) c"
    show "\<not> active (world s') c \<and> queue (world s') c = queue (world s) c"
    proof (cases "c < length (objs (world s))")
      case True
      then show ?thesis using nact s'(6)[OF True] by (simp add: s'(5) queue_wf[OF wf])
    next
      case False
      then show ?thesis using nact by (simp add: s'(5) queue_wf[OF wf] queue_wf[OF wf'] s'(4))
    qed
  qed
  from s'(1,3) a b show ?thesis by blast
qed

lemma reachableI: "exec as init = Ok s \<Longrightarrow> reachable s"
  unfolding reachable_def by blast

lemmas run_simps = init_def NewHub_def new_HubClient_def set_pc_def

section \<open>Properties of runs\<close>

lemma exec_no_panic:
  assumes "hub_inv s"
  shows "exec as s \<noteq> Panicked p"
  using assms
proof (induction as arbitrary: s)
  case Nil
  then show ?case by simp
next
  case (Cons a as)
  show ?case
  proof (cases "step a s")
    case Disabled
    then show ?thesis by simp
  next
    case (Panicked p')
    then show ?thesis using step_no_panic[OF Cons.prems] by blast
  next
    case (Ok s')
    then have "hub_inv s'" using Cons.prems step_hub_inv by blast
    then show ?thesis using Cons.IH Ok by simp
  qed
qed

lemma exec_append:
  "exec (as @ bs) s =
     (case exec as s of Ok s' \<Rightarrow> exec bs s' | Panicked p \<Rightarrow> Panicked p | Disabled \<Rightarrow> Disabled)"
  by (induction as arbitrary: s) (auto split: result.splits)

lemma step_closes:
  assumes inv: "hub_inv s" and st: "step a s = Ok s'"
    and q: "queue (world s) c = Some q" "\<not> closed q"
    and q': "queue (world s') c = Some q'" "closed q'"
  shows "(\<exists>ready. a = Dispatch ready) \<and> active (world s) c \<and> \<not> active (world s') c"
proof -
  have wf: "wf_world (world s)" using inv by (rule hub_invD(1))
  have c: "c < length (objs (world s))" "q = chans (world s) ! c"
    using q(1) by (simp_all add: queue_wf[OF wf] split: if_splits)
  from step_world[OF st] consider
    (reg) t info where "a = Call t (Register info)" "world s' = snd (new_HubClient info (world s))"
  | (disp) ready rq where "a = Dispatch ready" "loop s = Case rq"
  | (other) "\<forall>ready. a \<noteq> Dispatch ready" "world s' = world s"
    by blast
  then show ?thesis
  proof cases
    case reg
    then have "queue (world s') c = queue (world s) c"
      using c(1) by (simp add: queue_new_HubClient[OF wf])
    then show ?thesis using q q' by simp
  next
    case other
    then show ?thesis using q q' by simp
  next
    case disp
    from Dispatch_effect[OF inv disp(2), of ready] st disp(1) have e:
      "\<And>c. active (world s') c \<longleftrightarrow> active_after rq ready (world s) c"
      "\<And>c. c < length (objs (world s)) \<Longrightarrow>
         queue (world s') c = Some (chan_after rq ready (world s) c)"
      by auto
    have "closed (chan_after rq ready (world s) c)" using e(2)[OF c(1)] q' by simp
    then have "active (world s) c \<and> \<not> active_after rq ready (world s) c"
      using q(2) c(2) by (cases rq) (auto simp: sent_to_def split: if_splits)
    then show ?thesis using disp(1) e(1) by simp
  qed
qed

lemma gone_step:
  assumes inv: "hub_inv s" and g: "gone s c" and st: "step a s = Ok s'"
  shows "gone s' c"
proof -
  have wf: "wf_world (world s)" using inv by (rule hub_invD(1))
  from g have c: "c < length (objs (world s))" "\<And>t. goroutines s t \<noteq> Register_send c"
    "loop s \<noteq> Case (Reg c)" "\<not> active (world s) c"
    by (auto simp: gone_def pending_def)
  show ?thesis
  proof (cases a)
    case (Call t call)
    show ?thesis
    proof (cases call)
      case (Register info)
      then have s': "goroutines s t = Idle"
        "s' = set_pc t (Register_send (length (objs (world s)))) (s\<lparr>world := snd (new_HubClient info (world s))\<rparr>)"
        using st Call by (auto simp: new_HubClient_def split: if_splits)
      have 1: "\<And>u. goroutines s' u \<noteq> Register_send c"
        using c(1,2) by (auto simp: s'(2) set_pc_def)
      have 2: "world s' = snd (new_HubClient info (world s))" "loop s' = loop s"
        by (simp_all add: s'(2) set_pc_def)
      have 3: "c < length (objs (world s'))" using c(1) by (simp add: 2 new_HubClient_def)
      show ?thesis using c 1 3
        by (simp add: gone_def pending_def 2(2)) (simp add: 2(1) active_new_HubClient)
    next
      case (Broadcast m)
      then have "s' = set_pc t (Broadcast_send m) s" using st Call by (auto split: if_splits)
      then show ?thesis using c by (auto simp: gone_def pending_def set_pc_def)
    next
      case (Unregister c')
      then have "s' = set_pc t (Unregister_send c') s" using st Call by (auto split: if_splits)
      then show ?thesis using c by (auto simp: gone_def pending_def set_pc_def)
    qed
  next
    case (Handoff t)
    then obtain rq p where h: "loop s = Select" "sending (goroutines s t) = Some (rq, p)"
      "s' = set_pc t p (s\<lparr>loop := Case rq\<rparr>)"
      using st by (auto split: loop_pc.splits option.splits)
    have "rq \<noteq> Reg c \<and> (\<forall>c'. p \<noteq> Register_send c')"
      using h(2) c(2)[of t] by (cases "goroutines s t") auto
    then show ?thesis using c by (auto simp: gone_def pending_def h(3) set_pc_def)
  next
    case (Dispatch ready)
    then obtain rq where rq: "loop s = Case rq" using st by (cases "loop s") auto
    from Dispatch_effect[OF inv rq, of ready] st Dispatch have e:
      "loop s' = Select" "goroutines s' = goroutines s" "objs (world s') = objs (world s)"
      "\<And>c. active (world s') c \<longleftrightarrow> active_after rq ready (world s) c"
      by auto
    have "\<not> active_after rq ready (world s) c" using c(3,4) rq by (cases rq) auto
    then show ?thesis using c by (simp add: gone_def pending_def e)
  next
    case (Return t)
    then have "s' = set_pc t Idle s" using st by (auto split: if_splits)
    then show ?thesis using c by (auto simp: gone_def pending_def set_pc_def)
  qed
qed

lemma gone_step_delivered:
  assumes inv: "hub_inv s" and g: "gone s c" and st: "step a s = Ok s'"
  shows "delivered (world s') c = delivered (world s) c"
  using step_delivered[OF inv st, of c] g
  by (auto simp: gone_def split: action.splits option.splits)

lemma gone_exec:
  assumes "hub_inv s" "gone s c" "exec as s = Ok s'"
  shows "gone s' c \<and> delivered (world s') c = delivered (world s) c \<and> fanned_to c as s = []"
  using assms
proof (induction as arbitrary: s)
  case Nil
  then show ?case by simp
next
  case (Cons a as)
  then obtain s1 where s1: "step a s = Ok s1" "exec as s1 = Ok s'"
    by (auto split: result.splits)
  have i1: "hub_inv s1" using Cons.prems(1) s1(1) by (rule step_hub_inv)
  have g1: "gone s1 c" using Cons.prems(1,2) s1(1) by (rule gone_step)
  have d1: "delivered (world s1) c = delivered (world s) c"
    using Cons.prems(1,2) s1(1) by (rule gone_step_delivered)
  have "\<not> active (world s) c" using Cons.prems(2) by (simp add: gone_def)
  then show ?case using Cons.IH[OF i1 g1 s1(2)] d1 s1(1)
    by (simp split: option.splits)
qed

text \<open>An active client that a fan-out finds not listening is gone afterwards.\<close>

lemma removed_gone:
  assumes inv: "hub_inv s" and act: "active (world s) c" and st: "step a s = Ok s'"
    and nact: "\<not> active (world s') c"
  shows "gone s' c"
proof -
  have c: "c < length (objs (world s))" using active_queue_open(1)[OF inv act] .
  have np: "\<not> pending s c" using hub_invD(2)[OF inv, of c] act by blast
  from step_world[OF st] consider
    (reg) t info where "a = Call t (Register info)" "world s' = snd (new_HubClient info (world s))"
  | (disp) ready rq where "a = Dispatch ready" "loop s = Case rq" "loop s' = Select"
      "goroutines s' = goroutines s"
  | (other) "\<forall>ready. a \<noteq> Dispatch ready" "world s' = world s"
    by blast
  then show ?thesis
  proof cases
    case reg
    then show ?thesis using act nact by (simp add: active_new_HubClient)
  next
    case other
    then show ?thesis using act nact by simp
  next
    case disp
    from Dispatch_effect[OF inv disp(2), of ready] st disp(1) have
      "objs (world s') = objs (world s)" by auto
    then show ?thesis using c np nact disp(3,4) by (simp add: gone_def pending_def)
  qed
qed

lemma fanned_to_prefix:
  assumes "hub_inv s" "exec as s = Ok s'"
  shows "\<exists>ms. prefix ms (fanned_to c as s) \<and> delivered (world s') c = delivered (world s) c @ ms"
  using assms
proof (induction as arbitrary: s)
  case Nil
  then show ?case by simp
next
  case (Cons a as)
  then obtain s1 where s1: "step a s = Ok s1" "exec as s1 = Ok s'"
    by (auto split: result.splits)
  have i1: "hub_inv s1" using Cons.prems(1) s1(1) by (rule step_hub_inv)
  from Cons.IH[OF i1 s1(2)] obtain ms1 where ms1: "prefix ms1 (fanned_to c as s1)"
    "delivered (world s') c = delivered (world s1) c @ ms1" by blast
  define x where "x = (case fanning a s of
             Some message \<Rightarrow> if active (world s) c then [message] else []
           | None \<Rightarrow> [])"
  have ft: "fanned_to c (a # as) s = x @ fanned_to c as s1" using s1(1) by (simp add: x_def)
  show ?case
  proof (cases "\<exists>ready m. a = Dispatch ready \<and> loop s = Case (Bcast m) \<and> active (world s) c
      \<and> \<not> listening ready (world s) c")
    case True
    then obtain ready m where f: "a = Dispatch ready" "loop s = Case (Bcast m)"
      "active (world s) c" "\<not> listening ready (world s) c" by blast
    have d: "delivered (world s1) c = delivered (world s) c"
      using step_delivered[OF Cons.prems(1) s1(1), of c] f by simp
    have wf: "wf_world (world s)" using Cons.prems(1) by (rule hub_invD(1))
    have "\<not> ready c"
      using f(4) listening_wf[OF wf active_queue_open(1)[OF Cons.prems(1) f(3)], of ready] by simp
    then have "\<not> active (world s1) c"
      using Dispatch_effect[OF Cons.prems(1) f(2), of ready] s1(1) f(1) by auto
    then have "gone s1 c" using removed_gone[OF Cons.prems(1) f(3) s1(1)] by simp
    from gone_exec[OF i1 this s1(2)] have "delivered (world s') c = delivered (world s1) c" by simp
    then have "delivered (world s') c = delivered (world s) c @ []" using d by simp
    then show ?thesis by (intro exI[of _ "[]"]) simp
  next
    case False
    have "delivered (world s1) c = delivered (world s) c @ x"
      using step_delivered[OF Cons.prems(1) s1(1), of c] False
      by (cases a) (auto simp: x_def split: loop_pc.splits request.splits)
    then have "delivered (world s') c = delivered (world s) c @ (x @ ms1)" using ms1(2) by simp
    moreover have "prefix (x @ ms1) (fanned_to c (a # as) s)" using ms1(1) unfolding ft by simp
    ultimately show ?thesis by blast
  qed
qed

lemma fanned_out_prefix:
  assumes "hub_inv s" "active (world s) c" "exec as s = Ok s'"
  shows "\<exists>ms. prefix ms (fanned_out as s) \<and> delivered (world s') c = delivered (world s) c @ ms
     \<and> (active (world s') c \<longrightarrow> ms = fanned_out as s)"
  using assms
proof (induction as arbitrary: s)
  case Nil
  then show ?case by simp
next
  case (Cons a as)
  then obtain s1 where s1: "step a s = Ok s1" "exec as s1 = Ok s'"
    by (auto split: result.splits)
  have i1: "hub_inv s1" using Cons.prems(1) s1(1) by (rule step_hub_inv)
  define x where "x = (case fanning a s of Some message \<Rightarrow> [message] | None \<Rightarrow> [])"
  have fo: "fanned_out (a # as) s = x @ fanned_out as s1" using s1(1) by (simp add: x_def)
  have wf: "wf_world (world s)" using Cons.prems(1) by (rule hub_invD(1))
  note c = active_queue_open(1)[OF Cons.prems(1,2)]
  show ?case
  proof (cases "active (world s1) c")
    case True
    have "delivered (world s1) c = delivered (world s) c @ x"
    proof (cases "\<exists>ready m. a = Dispatch ready \<and> loop s = Case (Bcast m)")
      case False
      then show ?thesis using step_delivered[OF Cons.prems(1) s1(1), of c]
        by (cases a) (auto simp: x_def split: loop_pc.splits request.splits)
    next
      case f: True
      then obtain ready m where f: "a = Dispatch ready" "loop s = Case (Bcast m)" by blast
      have "ready c" using Dispatch_effect[OF Cons.prems(1) f(2), of ready] s1(1) f(1) True by auto
      then have "listening ready (world s) c" using listening_wf[OF wf c, of ready] by simp
      then show ?thesis using step_delivered[OF Cons.prems(1) s1(1), of c] f Cons.prems(2)
        by (simp add: x_def)
    qed
    moreover from Cons.IH[OF i1 True s1(2)] obtain ms1 where ms1: "prefix ms1 (fanned_out as s1)"
      "delivered (world s') c = delivered (world s1) c @ ms1"
      "active (world s') c \<longrightarrow> ms1 = fanned_out as s1" by blast
    ultimately have "prefix (x @ ms1) (fanned_out (a # as) s)"
      "delivered (world s') c = delivered (world s) c @ (x @ ms1)"
      "active (world s') c \<longrightarrow> x @ ms1 = fanned_out (a # as) s"
      unfolding fo by simp_all
    then show ?thesis by blast
  next
    case False
    have g1: "gone s1 c" using removed_gone[OF Cons.prems(1,2) s1(1) False] .
    have "\<not> (\<exists>ready m. a = Dispatch ready \<and> loop s = Case (Bcast m) \<and> listening ready (world s) c)"
    proof
      assume "\<exists>ready m. a = Dispatch ready \<and> loop s = Case (Bcast m) \<and> listening ready (world s) c"
      then obtain ready m where f: "a = Dispatch ready" "loop s = Case (Bcast m)"
        "listening ready (world s) c" by blast
      have "ready c" using f(3) listening_wf[OF wf c, of ready] by simp
      then have "active (world s1) c"
        using Dispatch_effect[OF Cons.prems(1) f(2), of ready] s1(1) f(1) Cons.prems(2) by auto
      then show False using False by simp
    qed
    then have d: "delivered (world s1) c = delivered (world s) c"
      using step_delivered[OF Cons.prems(1) s1(1), of c]
      by (cases a) (auto split: loop_pc.splits request.splits)
    from gone_exec[OF i1 g1 s1(2)] have "gone s' c" "delivered (world s') c = delivered (world s1) c"
      by simp_all
    then have "delivered (world s') c = delivered (world s) c @ []" "\<not> active (world s') c"
      using d by (simp_all add: gone_def)
    then show ?thesis by (intro exI[of _ "[]"]) simp
  qed
qed

lemma keeps_up_active:
  assumes "hub_inv s" "active (world s) c" "keeps_up c as s" "exec as s = Ok s'"
  shows "active (world s') c"
  using assms
proof (induction as arbitrary: s)
  case Nil
  then show ?case by simp
next
  case (Cons a as)
  then obtain s1 where s1: "step a s = Ok s1" "exec as s1 = Ok s'"
    by (auto split: result.splits)
  have i1: "hub_inv s1" using Cons.prems(1) s1(1) by (rule step_hub_inv)
  have k: "keeping_up c a s" "keeps_up c as s1" using Cons.prems(3) s1(1) by simp_all
  have wf: "wf_world (world s)" using Cons.prems(1) by (rule hub_invD(1))
  note c = active_queue_open(1)[OF Cons.prems(1,2)]
  have "active (world s1) c"
  proof -
    from step_world[OF s1(1)] consider
      (reg) t info where "a = Call t (Register info)" "world s1 = snd (new_HubClient info (world s))"
    | (disp) ready rq where "a = Dispatch ready" "loop s = Case rq"
    | (other) "\<forall>ready. a \<noteq> Dispatch ready" "world s1 = world s"
      by blast
    then show ?thesis
    proof cases
      case reg
      then show ?thesis using Cons.prems(2) by (simp add: active_new_HubClient)
    next
      case other
      then show ?thesis using Cons.prems(2) by simp
    next
      case disp
      from Dispatch_effect[OF Cons.prems(1) disp(2), of ready] s1(1) disp(1) have
        e: "active (world s1) c \<longleftrightarrow> active_after rq ready (world s) c" by auto
      show ?thesis using k(1) disp Cons.prems(2) listening_wf[OF wf c, of ready]
        by (cases rq) (simp_all add: e)
    qed
  qed
  then show ?case using Cons.IH[OF i1 _ k(2) s1(2)] by simp
qed

lemma fanned_to_subseq: "subseq (fanned_to c as s) (fanned_out as s)"
proof (induction as arbitrary: s)
  case Nil
  then show ?case by simp
next
  case (Cons a as)
  show ?case
  proof (cases "step a s")
    case (Ok s1)
    have "subseq (case fanning a s of
             Some message \<Rightarrow> if active (world s) c then [message] else []
           | None \<Rightarrow> [])
          (case fanning a s of Some message \<Rightarrow> [message] | None \<Rightarrow> [])"
      by (simp split: option.splits)
    then show ?thesis using Cons.IH[of s1] Ok by (simp add: list_emb_append_mono)
  qed simp_all
qed

text \<open>Once the send of \<^verbatim>\<open>Register\<close> is done for a client, it is never sent again.\<close>

lemma sent_step:
  assumes inv: "hub_inv s" and st: "step a s = Ok s'"
    and c: "c < length (objs (world s))" "\<forall>t. goroutines s t \<noteq> Register_send c"
  shows "c < length (objs (world s')) \<and> (\<forall>t. goroutines s' t \<noteq> Register_send c)"
proof (cases a)
  case (Call t call)
  show ?thesis
  proof (cases call)
    case (Register info)
    then have "s' = set_pc t (Register_send (length (objs (world s)))) (s\<lparr>world := snd (new_HubClient info (world s))\<rparr>)"
      using st Call by (auto simp: new_HubClient_def split: if_splits)
    then show ?thesis using c by (auto simp: set_pc_def new_HubClient_def)
  next
    case (Broadcast m)
    then have "s' = set_pc t (Broadcast_send m) s" using st Call by (auto split: if_splits)
    then show ?thesis using c by (auto simp: set_pc_def)
  next
    case (Unregister c')
    then have "s' = set_pc t (Unregister_send c') s" using st Call by (auto split: if_splits)
    then show ?thesis using c by (auto simp: set_pc_def)
  qed
next
  case (Handoff t)
  then obtain rq p where h: "sending (goroutines s t) = Some (rq, p)"
    "s' = set_pc t p (s\<lparr>loop := Case rq\<rparr>)"
    using st by (auto split: loop_pc.splits option.splits)
  have "\<forall>c'. p \<noteq> Register_send c'" using h(1) by (cases "goroutines s t") auto
  then show ?thesis using c by (auto simp: h(2) set_pc_def)
next
  case (Dispatch ready)
  then obtain rq where rq: "loop s = Case rq" using st by (cases "loop s") auto
  from Dispatch_effect[OF inv rq, of ready] st Dispatch have
    "goroutines s' = goroutines s" "objs (world s') = objs (world s)" by auto
  then show ?thesis using c by simp
next
  case (Return t)
  then have "s' = set_pc t Idle s" using st by (auto split: if_splits)
  then show ?thesis using c by (auto simp: set_pc_def)
qed

lemma sent_exec:
  assumes "hub_inv s" "exec as s = Ok s'"
    and "c < length (objs (world s))" "\<forall>t. goroutines s t \<noteq> Register_send c"
  shows "c < length (objs (world s')) \<and> (\<forall>t. goroutines s' t \<noteq> Register_send c)"
  using assms
proof (induction as arbitrary: s)
  case Nil
  then show ?case by simp
next
  case (Cons a as)
  then obtain s1 where s1: "step a s = Ok s1" "exec as s1 = Ok s'"
    by (auto split: result.splits)
  have i1: "hub_inv s1" using Cons.prems(1) s1(1) by (rule step_hub_inv)
  from sent_step[OF Cons.prems(1) s1(1) Cons.prems(3,4)] Cons.IH[OF i1 s1(2)]
  show ?case by blast
qed

lemma reachable_exec:
  assumes "reachable s" "exec as s = Ok s'"
  shows "reachable s'"
proof -
  from assms(1) obtain as0 where "exec as0 init = Ok s" unfolding reachable_def by blast
  then have "exec (as0 @ as) init = Ok s'" using assms(2) by (simp add: exec_append)
  then show ?thesis unfolding reachable_def by blast
qed

lemma registered_before_broadcast:
  assumes r: "reachable s0" and t: "goroutines s0 t = Register_return c"
    and e: "exec as s0 = Ok s" and l: "loop s = Case (Bcast m)"
  shows "c < length (objs (world s))
     \<and> (active (world s) c \<or> closed (chans (world s) ! c))"
proof -
  have inv0: "hub_inv s0" using r by (rule reachable_hub_inv)
  have inv: "hub_inv s" using inv0 e by (rule exec_hub_inv)
  from hub_invD(5)[OF inv0 t] have "c < length (objs (world s0))"
    "\<forall>t'. goroutines s0 t' \<noteq> Register_send c" by simp_all
  from sent_exec[OF inv0 e this] have c: "c < length (objs (world s))"
    "\<forall>t. goroutines s t \<noteq> Register_send c" by simp_all
  have "\<not> pending s c" using c(2) l by (simp add: pending_def)
  then show ?thesis using hub_invD(6)[OF inv c(1)] c(1) by blast
qed

text \<open>A goroutine blocked in a send gets past it only by the hand-over.\<close>

lemma leave_send:
  assumes st: "step a s = Ok s'" and snd: "sending (goroutines s t) = Some (rq, p)"
    and ne: "goroutines s' t \<noteq> goroutines s t"
  shows "a = Handoff t \<and> loop s = Select \<and> s' = set_pc t p (s\<lparr>loop := Case rq\<rparr>)"
proof (cases a)
  case (Call u call)
  have "u \<noteq> t" using st snd Call by (cases call) (auto split: if_splits)
  then show ?thesis using st ne Call
    by (cases call) (auto simp: set_pc_def new_HubClient_def split: if_splits)
next
  case (Handoff u)
  then show ?thesis using st snd ne
    by (auto simp: set_pc_def split: loop_pc.splits option.splits if_splits)
next
  case (Dispatch ready)
  then show ?thesis using st ne by (auto split: loop_pc.splits sum.splits)
next
  case (Return u)
  have "u \<noteq> t" using st snd Return by (cases "goroutines s t") (auto split: if_splits)
  then show ?thesis using st ne Return by (auto simp: set_pc_def split: if_splits)
qed

lemma handed_over_before_leaving:
  assumes "sending (goroutines s t) = Some (rq, p)" "exec as s = Ok s'"
    "goroutines s' t \<noteq> goroutines s t"
  shows "\<exists>as1 as2 s1. as = as1 @ Handoff t # as2 \<and> exec as1 s = Ok s1
     \<and> goroutines s1 t = goroutines s t \<and> loop s1 = Select
     \<and> step (Handoff t) s1 = Ok (set_pc t p (s1\<lparr>loop := Case rq\<rparr>))"
  using assms
proof (induction as arbitrary: s)
  case Nil
  then show ?case by simp
next
  case (Cons a as)
  then obtain s1 where s1: "step a s = Ok s1" "exec as s1 = Ok s'"
    by (auto split: result.splits)
  show ?case
  proof (cases "goroutines s1 t = goroutines s t")
    case True
    then have "sending (goroutines s1 t) = Some (rq, p)" "goroutines s' t \<noteq> goroutines s1 t"
      using Cons.prems(1,3) by simp_all
    from Cons.IH[OF this(1) s1(2) this(2)] obtain as1 as2 s2 where
      h: "as = as1 @ Handoff t # as2" "exec as1 s1 = Ok s2"
      "goroutines s2 t = goroutines s1 t" "loop s2 = Select"
      "step (Handoff t) s2 = Ok (set_pc t p (s2\<lparr>loop := Case rq\<rparr>))"
      by blast
    have "a # as = (a # as1) @ Handoff t # as2" "exec (a # as1) s = Ok s2"
      "goroutines s2 t = goroutines s t"
      using h(1,2,3) s1(1) True by simp_all
    then show ?thesis using h(4,5) by blast
  next
    case False
    from leave_send[OF s1(1) Cons.prems(1) False] have
      h: "a = Handoff t" "loop s = Select" "s1 = set_pc t p (s\<lparr>loop := Case rq\<rparr>)"
      by simp_all
    have "a # as = [] @ Handoff t # as" "exec [] s = Ok s" using h(1) by simp_all
    moreover have "step (Handoff t) s = Ok (set_pc t p (s\<lparr>loop := Case rq\<rparr>))"
      using s1(1) h by simp
    ultimately show ?thesis using h(2) by blast
  qed
qed

text \<open>What a fan-out delivers to the subscribers whose consumers are waiting.\<close>

lemma fanout_delivers:
  assumes inv: "hub_inv s" and l: "loop s = Case (Bcast message)"
  shows "\<exists>s'. step (Dispatch ready) s = Ok s'
     \<and> (\<forall>c. active (world s) c \<longrightarrow> listening ready (world s) c \<longrightarrow>
            delivered (world s') c = delivered (world s) c @ [message])"
proof -
  from Dispatch_effect[OF inv l, of ready] obtain s' where s': "step (Dispatch ready) s = Ok s'"
    by blast
  have "\<forall>c. active (world s) c \<longrightarrow> listening ready (world s) c \<longrightarrow>
            delivered (world s') c = delivered (world s) c @ [message]"
    using step_delivered[OF inv s'] l by simp
  then show ?thesis using s' by blast
qed

section \<open>The fan-out of a broadcast\<close>

text \<open>
  C1: when the dispatch loop handles a broadcast request, every subscriber of the active
  set gets one attempt: if its consumer is waiting, the message is handed over and the
  subscriber stays; if not, its channel is closed and it is removed in the same pass.
  Nothing else is touched, the case ends without a panic, and the goroutines of the
  producers are as they were. A subscriber whose consumer never reads is therefore
  removed by the first broadcast handled after its registration.
\<close>

theorem broadcast_fanout:
  assumes "reachable s" and "loop s = Case (Bcast message)"
  shows "\<exists>s'. step (Dispatch ready) s = Ok s' \<and> goroutines s' = goroutines s
     \<and> (\<forall>c. active (world s) c \<longrightarrow>
          (\<exists>q. queue (world s) c = Some q \<and> \<not> closed q
             \<and> (if listening ready (world s) c
                then active (world s') c
                  \<and> queue (world s') c = Some (q\<lparr>received := received q @ [message]\<rparr>)
                else \<not> active (world s') c
                  \<and> queue (world s') c = Some (q\<lparr>closed := True\<rparr>))))
     \<and> (\<forall>c. \<not> active (world s) c \<longrightarrow>
          \<not> active (world s') c \<and> queue (world s') c = queue (world s) c)"
  using fanout_attempts[OF reachable_hub_inv[OF assms(1)] assms(2)] .

theorem broadcast_fanout_witness:
  "let s = \<lparr>world = \<lparr>clients = [(0, True)], objs = [\<lparr>Messages = 0, ClientInfo = ''a''\<rparr>],
                     chans = [\<lparr>closed = False, received = []\<rparr>]\<rparr>,
             loop = Case (Bcast ''m''),
             goroutines = (\<lambda>t. Idle)(0 := Idle, 1 := Broadcast_return)\<rparr>
   in reachable s \<and> loop s = Case (Bcast ''m'') \<and> active (world s) 0
      \<and> (\<exists>s'. step (Dispatch (\<lambda>ch. False)) s = Ok s' \<and> goroutines s' = goroutines s
            \<and> \<not> active (world s') 0
            \<and> queue (world s') 0 = Some \<lparr>closed = True, received = []\<rparr>)"
proof -
  let ?s = "\<lparr>world = \<lparr>clients = [(0, True)], objs = [\<lparr>Messages = 0, ClientInfo = ''a''\<rparr>],
                     chans = [\<lparr>closed = False, received = []\<rparr>]\<rparr>,
             loop = Case (Bcast ''m''),
             goroutines = (\<lambda>t. Idle)(0 := Idle, 1 := Broadcast_return)\<rparr> :: string config"
  have "exec [Call 0 (Register ''a''), Handoff 0, Dispatch (\<lambda>ch. True), Return 0,
     Call 1 (Broadcast ''m''), Handoff 1] init = Ok ?s"
    by (simp add: run_simps)
  then have r: "reachable ?s" by (rule reachableI)
  have l: "loop ?s = Case (Bcast ''m'')" by simp
  have a: "active (world ?s) 0" "\<not> listening (\<lambda>ch. False) (world ?s) 0"
    "queue (world ?s) 0 = Some \<lparr>closed = False, received = []\<rparr>"
    by (simp_all add: active_def listening_def queue_def deref_def)
  from broadcast_fanout[OF r l, of "\<lambda>ch. False"] obtain s' where
    s': "step (Dispatch (\<lambda>ch. False)) ?s = Ok s'" "goroutines s' = goroutines ?s"
      "\<forall>c. active (world ?s) c \<longrightarrow>
          (\<exists>q. queue (world ?s) c = Some q \<and> \<not> closed q
             \<and> (if listening (\<lambda>ch. False) (world ?s) c
                then active (world s') c
                  \<and> queue (world s') c = Some (q\<lparr>received := received q @ [''m'']\<rparr>)
                else \<not> active (world s') c
                  \<and> queue (world s') c = Some (q\<lparr>closed := True\<rparr>)))"
    by blast
  from s'(3) a have "\<not> active (world s') 0
      \<and> queue (world s') 0 = Some \<lparr>closed = True, received = []\<rparr>"
    by (auto simp del: step.simps)
  with s'(1,2) r l a(1) show ?thesis unfolding Let_def by blast
qed

text \<open>
  C7: for one broadcast, a subscriber of the active set whose consumer is waiting
  receives the message exactly once, whatever the number of subscribers.
\<close>

theorem broadcast_exactly_once:
  assumes "reachable s" and "loop s = Case (Bcast message)"
    and "active (world s) c" and "listening ready (world s) c"
  shows "\<exists>s' q q'. step (Dispatch ready) s = Ok s'
     \<and> queue (world s) c = Some q \<and> queue (world s') c = Some q'
     \<and> received q' = received q @ [message]
     \<and> count_list (received q') message = Suc (count_list (received q) message)
     \<and> \<not> closed q' \<and> active (world s') c"
proof -
  have inv: "hub_inv s" using assms(1) by (rule reachable_hub_inv)
  have wf: "wf_world (world s)" using inv by (rule hub_invD(1))
  note c = active_queue_open[OF inv assms(3)]
  have l: "ready c" using listening_wf[OF wf c(1)] assms(4) by simp
  from Dispatch_effect[OF inv assms(2), of ready] obtain s' where s':
    "step (Dispatch ready) s = Ok s'"
    "\<And>c. active (world s') c \<longleftrightarrow> active (world s) c \<and> ready c"
    "\<And>c. c < length (objs (world s)) \<Longrightarrow>
       queue (world s') c = Some (chan_after (Bcast message) ready (world s) c)"
    by auto
  let ?q = "chans (world s) ! c"
  have "queue (world s') c = Some (?q\<lparr>received := received ?q @ [message]\<rparr>)"
    using s'(3)[OF c(1)] assms(3) l by (simp add: sent_to_def)
  then show ?thesis using s'(1) c assms(3) l by (simp add: s'(2))
qed

theorem broadcast_exactly_once_witness:
  "let s = \<lparr>world = \<lparr>clients = [(0, True), (1, True)],
                     objs = [\<lparr>Messages = 0, ClientInfo = ''a''\<rparr>, \<lparr>Messages = 1, ClientInfo = ''b''\<rparr>],
                     chans = [\<lparr>closed = False, received = []\<rparr>, \<lparr>closed = False, received = []\<rparr>]\<rparr>,
             loop = Case (Bcast ''m''),
             goroutines = (\<lambda>t. Idle)(0 := Idle, 1 := Idle, 2 := Broadcast_return)\<rparr>
   in reachable s \<and> loop s = Case (Bcast ''m'') \<and> active (world s) 1
      \<and> listening (\<lambda>ch. True) (world s) 1
      \<and> (\<exists>s' q'. step (Dispatch (\<lambda>ch. True)) s = Ok s' \<and> queue (world s') 1 = Some q'
            \<and> received q' = [''m''] \<and> count_list (received q') ''m'' = 1
            \<and> \<not> closed q' \<and> active (world s') 1)"
proof -
  let ?s = "\<lparr>world = \<lparr>clients = [(0, True), (1, True)],
                     objs = [\<lparr>Messages = 0, ClientInfo = ''a''\<rparr>, \<lparr>Messages = 1, ClientInfo = ''b''\<rparr>],
                     chans = [\<lparr>closed = False, received = []\<rparr>, \<lparr>closed = False, received = []\<rparr>]\<rparr>,
             loop = Case (Bcast ''m''),
             goroutines = (\<lambda>t. Idle)(0 := Idle, 1 := Idle, 2 := Broadcast_return)\<rparr> :: string config"
  have "exec [Call 0 (Register ''a''), Call 1 (Register ''b''), Handoff 0, Dispatch (\<lambda>ch. True),
     Handoff 1, Return 0, Dispatch (\<lambda>ch. True), Return 1,
     Call 2 (Broadcast ''m''), Handoff 2] init = Ok ?s"
    by (simp add: run_simps)
  then have r: "reachable ?s" by (rule reachableI)
  have l: "loop ?s = Case (Bcast ''m'')" by simp
  have a: "active (world ?s) 1" "listening (\<lambda>ch. True) (world ?s) 1"
    "queue (world ?s) 1 = Some \<lparr>closed = False, received = []\<rparr>"
    by (simp_all add: active_def listening_def queue_def deref_def)
  from broadcast_exactly_once[OF r l a(1,2)] a(3) r l a(1,2)
  show ?thesis unfolding Let_def by (auto simp del: step.simps)
qed

text \<open>
  C8: a broadcast handled while the active set is empty is a fan-out over nothing: the
  case of the \<^verbatim>\<open>select\<close> ends without a panic and leaves the hub and the heap as
  they were.
\<close>

theorem broadcast_no_subscriber:
  assumes "loop s = Case (Bcast message)" and "clients (world s) = []"
  shows "step (Dispatch ready) s = Ok (s\<lparr>loop := Select\<rparr>)"
  using assms by simp

theorem broadcast_no_subscriber_witness:
  "let s = \<lparr>world = NewHub, loop = Case (Bcast ''hello''),
             goroutines = (\<lambda>t. Idle)(0 := Broadcast_return)\<rparr> :: string config
   in exec [Call 0 (Broadcast ''hello''), Handoff 0] init = Ok s
      \<and> loop s = Case (Bcast ''hello'') \<and> clients (world s) = []
      \<and> step (Dispatch (\<lambda>ch. True)) s = Ok (s\<lparr>loop := Select\<rparr>)
      \<and> world (s\<lparr>loop := Select\<rparr>) = world s"
proof -
  let ?s = "\<lparr>world = NewHub, loop = Case (Bcast ''hello''),
             goroutines = (\<lambda>t. Idle)(0 := Broadcast_return)\<rparr> :: string config"
  have e: "exec [Call 0 (Broadcast ''hello''), Handoff 0] init = Ok ?s"
    by (simp add: run_simps)
  have l: "loop ?s = Case (Bcast ''hello'')" by simp
  have c: "clients (world ?s) = []" by (simp add: NewHub_def)
  from broadcast_no_subscriber[OF l c, of "\<lambda>ch. True"] e l c
  show ?thesis unfolding Let_def by simp
qed

section \<open>Unregistration\<close>

text \<open>
  C3: an unregister request for a subscriber that is not in the active set changes
  nothing and does not panic; for an active subscriber it removes the subscriber and
  closes its channel, which was open, and leaves every other subscriber alone. Handling
  the same request once more changes nothing.
\<close>

theorem unregister_idempotent:
  assumes "reachable s" and "loop s = Case (Unreg c)"
  shows "\<exists>s'. step (Dispatch ready) s = Ok s'
     \<and> (if active (world s) c
        then \<not> active (world s') c
          \<and> (\<exists>q. queue (world s) c = Some q \<and> \<not> closed q
                 \<and> queue (world s') c = Some (q\<lparr>closed := True\<rparr>))
          \<and> (\<forall>c'. c' \<noteq> c \<longrightarrow> active (world s') c' = active (world s) c'
                 \<and> queue (world s') c' = queue (world s) c')
        else world s' = world s)
     \<and> Run_case (Unreg c) ready' (world s') = Inr (world s')"
proof -
  have inv: "hub_inv s" using assms(1) by (rule reachable_hub_inv)
  have wf: "wf_world (world s)" using inv by (rule hub_invD(1))
  from Dispatch_effect[OF inv assms(2), of ready] obtain s' where s':
    "step (Dispatch ready) s = Ok s'" "hub_inv s'"
    "objs (world s') = objs (world s)"
    "\<And>c'. active (world s') c' \<longleftrightarrow> active (world s) c' \<and> c' \<noteq> c"
    "\<And>c'. c' < length (objs (world s)) \<Longrightarrow>
       queue (world s') c' = Some (chan_after (Unreg c) ready (world s) c')"
    by auto
  have wf': "wf_world (world s')" using s'(2) by (rule hub_invD(1))
  have again: "Run_case (Unreg c) ready' (world s') = Inr (world s')"
    using Run_case_Unreg[OF wf', of c ready'] s'(4)[of c] by (simp del: Run_case.simps)
  show ?thesis
  proof (cases "active (world s) c")
    case False
    have "Run_case (Unreg c) ready (world s) = Inr (world s)"
      using Run_case_Unreg[OF wf, of c ready] False by (simp del: Run_case.simps)
    then have "world s' = world s" using s'(1) assms(2) by auto
    then show ?thesis using s'(1) again False
      by (intro exI[of _ s']) (simp del: Run_case.simps step.simps)
  next
    case True
    note c = active_queue_open[OF inv True]
    have 1: "queue (world s') c = Some ((chans (world s) ! c)\<lparr>closed := True\<rparr>)"
      using s'(5)[OF c(1)] True by simp
    have 2: "\<forall>c'. c' \<noteq> c \<longrightarrow> active (world s') c' = active (world s) c'
                 \<and> queue (world s') c' = queue (world s) c'"
    proof (intro allI impI)
      fix c' assume ne: "c' \<noteq> c"
      show "active (world s') c' = active (world s) c' \<and> queue (world s') c' = queue (world s) c'"
      proof (cases "c' < length (objs (world s))")
        case True
        then show ?thesis using ne s'(5)[OF True] by (simp add: s'(4) queue_wf[OF wf])
      next
        case False
        then show ?thesis using ne by (simp add: s'(4) queue_wf[OF wf] queue_wf[OF wf'] s'(3))
      qed
    qed
    show ?thesis using s'(1) again True c 1 2
      by (intro exI[of _ s']) (simp del: Run_case.simps step.simps add: s'(4))
  qed
qed

theorem unregister_idempotent_witness:
  "let s = \<lparr>world = \<lparr>clients = [(0, True)], objs = [\<lparr>Messages = 0, ClientInfo = ''a''\<rparr>],
                     chans = [\<lparr>closed = False, received = []\<rparr>]\<rparr>,
             loop = Case (Unreg 0),
             goroutines = (\<lambda>t. Idle)(0 := Unregister_return)\<rparr> :: string config
   in reachable s \<and> loop s = Case (Unreg 0) \<and> active (world s) 0
      \<and> (\<exists>s'. step (Dispatch (\<lambda>ch. True)) s = Ok s' \<and> \<not> active (world s') 0
            \<and> queue (world s') 0 = Some \<lparr>closed = True, received = []\<rparr>
            \<and> Run_case (Unreg 0) (\<lambda>ch. True) (world s') = Inr (world s'))"
proof -
  let ?s = "\<lparr>world = \<lparr>clients = [(0, True)], objs = [\<lparr>Messages = 0, ClientInfo = ''a''\<rparr>],
                     chans = [\<lparr>closed = False, received = []\<rparr>]\<rparr>,
             loop = Case (Unreg 0),
             goroutines = (\<lambda>t. Idle)(0 := Unregister_return)\<rparr> :: string config"
  have "exec [Call 0 (Register ''a''), Handoff 0, Dispatch (\<lambda>ch. True), Return 0,
     Call 0 (Unregister 0), Handoff 0] init = Ok ?s"
    by (simp add: run_simps)
  then have r: "reachable ?s" by (rule reachableI)
  have l: "loop ?s = Case (Unreg 0)" by simp
  have a: "active (world ?s) 0"
    "queue (world ?s) 0 = Some \<lparr>closed = False, received = []\<rparr>"
    by (simp_all add: active_def queue_def deref_def)
  from unregister_idempotent[OF r l, of "\<lambda>ch. True" "\<lambda>ch. True"] a r l
  show ?thesis unfolding Let_def by (auto simp del: step.simps Run_case.simps)
qed

section \<open>No panic of the dispatch loop\<close>

text \<open>
  C10: in every reachable configuration each subscriber of the active set has an open
  channel; no run from it panics (so the loop never sends on a closed channel and never
  closes one twice); and a step closes a channel only when it is a case of the
  \<^verbatim>\<open>select\<close> that removes the channel's subscriber from the active set.
\<close>

theorem no_channel_panic:
  assumes "reachable s"
  shows "(\<forall>c. active (world s) c \<longrightarrow> (\<exists>q. queue (world s) c = Some q \<and> \<not> closed q))
     \<and> (\<forall>as p. exec as s \<noteq> Panicked p)
     \<and> (\<forall>a s' c q q'. step a s = Ok s' \<longrightarrow> queue (world s) c = Some q \<longrightarrow> \<not> closed q \<longrightarrow>
            queue (world s') c = Some q' \<longrightarrow> closed q' \<longrightarrow>
            (\<exists>ready. a = Dispatch ready) \<and> active (world s) c \<and> \<not> active (world s') c)"
proof -
  have inv: "hub_inv s" using assms by (rule reachable_hub_inv)
  have 1: "\<forall>c. active (world s) c \<longrightarrow> (\<exists>q. queue (world s) c = Some q \<and> \<not> closed q)"
    using active_queue_open[OF inv] by blast
  have 2: "\<forall>as p. exec as s \<noteq> Panicked p" using exec_no_panic[OF inv] by blast
  have 3: "\<forall>a s' c q q'. step a s = Ok s' \<longrightarrow> queue (world s) c = Some q \<longrightarrow> \<not> closed q \<longrightarrow>
            queue (world s') c = Some q' \<longrightarrow> closed q' \<longrightarrow>
            (\<exists>ready. a = Dispatch ready) \<and> active (world s) c \<and> \<not> active (world s') c"
    using step_closes[OF inv] by blast
  from 1 2 3 show ?thesis by blast
qed

theorem no_channel_panic_witness:
  "let s = \<lparr>world = \<lparr>clients = [(0, True)], objs = [\<lparr>Messages = 0, ClientInfo = ''a''\<rparr>],
                     chans = [\<lparr>closed = False, received = []\<rparr>]\<rparr>,
             loop = Select,
             goroutines = (\<lambda>t. Idle)(0 := Idle)\<rparr> :: string config
   in reachable s \<and> active (world s) 0
      \<and> (\<exists>q. queue (world s) 0 = Some q \<and> \<not> closed q)
      \<and> exec [Call 1 (Broadcast ''m''), Handoff 1, Dispatch (\<lambda>ch. False),
               Call 2 (Unregister 0), Handoff 2, Dispatch (\<lambda>ch. False)] s
          \<noteq> Panicked CloseOfClosedChannel"
proof -
  let ?s = "\<lparr>world = \<lparr>clients = [(0, True)], objs = [\<lparr>Messages = 0, ClientInfo = ''a''\<rparr>],
                     chans = [\<lparr>closed = False, received = []\<rparr>]\<rparr>,
             loop = Select,
             goroutines = (\<lambda>t. Idle)(0 := Idle)\<rparr> :: string config"
  have "exec [Call 0 (Register ''a''), Handoff 0, Dispatch (\<lambda>ch. True), Return 0] init = Ok ?s"
    by (simp add: run_simps)
  then have r: "reachable ?s" by (rule reachableI)
  have a: "active (world ?s) 0" by (simp add: active_def)
  from no_channel_panic[OF r] a r show ?thesis unfolding Let_def by blast
qed

section \<open>Order of delivery\<close>

text \<open>
  C2, as amended: during a run, what a subscriber receives is a subsequence of the
  messages fanned out, in the order of the fan-outs. For a subscriber that is in the
  active set when the run starts it is a prefix of them (it receives no message without
  all the earlier ones of the run), the whole sequence if it is still active at the end,
  and it is still active if its consumer was waiting at every fan-out and no unregister
  request for it was handled.
\<close>

theorem ordered_delivery:
  assumes "reachable s" and "exec as s = Ok s'"
  shows "(\<exists>ms. subseq ms (fanned_out as s)
            \<and> delivered (world s') c = delivered (world s) c @ ms)
     \<and> (active (world s) c \<longrightarrow>
          (\<exists>ms. prefix ms (fanned_out as s)
             \<and> delivered (world s') c = delivered (world s) c @ ms
             \<and> (active (world s') c \<longrightarrow> ms = fanned_out as s)
             \<and> (keeps_up c as s \<longrightarrow> active (world s') c \<and> ms = fanned_out as s)))"
proof -
  have inv: "hub_inv s" using assms(1) by (rule reachable_hub_inv)
  from fanned_to_prefix[OF inv assms(2), of c] obtain ms where
    ms: "prefix ms (fanned_to c as s)" "delivered (world s') c = delivered (world s) c @ ms"
    by blast
  have "subseq ms (fanned_out as s)"
    using ms(1) fanned_to_subseq[of c as s] by (meson prefix_imp_subseq subseq_order.order_trans)
  then have 1: "\<exists>ms. subseq ms (fanned_out as s)
            \<and> delivered (world s') c = delivered (world s) c @ ms"
    using ms(2) by blast
  have 2: "active (world s) c \<longrightarrow>
          (\<exists>ms. prefix ms (fanned_out as s)
             \<and> delivered (world s') c = delivered (world s) c @ ms
             \<and> (active (world s') c \<longrightarrow> ms = fanned_out as s)
             \<and> (keeps_up c as s \<longrightarrow> active (world s') c \<and> ms = fanned_out as s))"
  proof
    assume act: "active (world s) c"
    from fanned_out_prefix[OF inv act assms(2)] obtain ms where
      ms: "prefix ms (fanned_out as s)" "delivered (world s') c = delivered (world s) c @ ms"
      "active (world s') c \<longrightarrow> ms = fanned_out as s" by blast
    have "keeps_up c as s \<longrightarrow> active (world s') c \<and> ms = fanned_out as s"
      using keeps_up_active[OF inv act _ assms(2)] ms(3) by blast
    then show "\<exists>ms. prefix ms (fanned_out as s)
             \<and> delivered (world s') c = delivered (world s) c @ ms
             \<and> (active (world s') c \<longrightarrow> ms = fanned_out as s)
             \<and> (keeps_up c as s \<longrightarrow> active (world s') c \<and> ms = fanned_out as s)"
      using ms by blast
  qed
  from 1 2 show ?thesis by blast
qed

theorem ordered_delivery_witness:
  "let s = \<lparr>world = \<lparr>clients = [(0, True)], objs = [\<lparr>Messages = 0, ClientInfo = ''a''\<rparr>],
                     chans = [\<lparr>closed = False, received = []\<rparr>]\<rparr>,
             loop = Select,
             goroutines = (\<lambda>t. Idle)(0 := Idle)\<rparr> :: string config;
       run = [Call 1 (Broadcast ''B1''), Handoff 1, Dispatch (\<lambda>ch. True), Return 1,
              Call 1 (Broadcast ''B2''), Handoff 1, Dispatch (\<lambda>ch. True), Return 1]
   in reachable s \<and> active (world s) 0 \<and> keeps_up 0 run s
      \<and> fanned_out run s = [''B1'', ''B2'']
      \<and> (\<exists>s'. exec run s = Ok s' \<and> active (world s') 0
            \<and> delivered (world s') 0 = [''B1'', ''B2''])"
proof -
  let ?s = "\<lparr>world = \<lparr>clients = [(0, True)], objs = [\<lparr>Messages = 0, ClientInfo = ''a''\<rparr>],
                     chans = [\<lparr>closed = False, received = []\<rparr>]\<rparr>,
             loop = Select,
             goroutines = (\<lambda>t. Idle)(0 := Idle)\<rparr> :: string config"
  let ?run = "[Call 1 (Broadcast ''B1''), Handoff 1, Dispatch (\<lambda>ch. True), Return 1,
              Call 1 (Broadcast ''B2''), Handoff 1, Dispatch (\<lambda>ch. True), Return 1]
              :: string action list"
  let ?s' = "\<lparr>world = \<lparr>clients = [(0, True)], objs = [\<lparr>Messages = 0, ClientInfo = ''a''\<rparr>],
                     chans = [\<lparr>closed = False, received = [''B1'', ''B2'']\<rparr>]\<rparr>,
             loop = Select,
             goroutines = (\<lambda>t. Idle)(0 := Idle, 1 := Idle)\<rparr> :: string config"
  have "exec [Call 0 (Register ''a''), Handoff 0, Dispatch (\<lambda>ch. True), Return 0] init = Ok ?s"
    by (simp add: run_simps)
  then have r: "reachable ?s" by (rule reachableI)
  have a: "active (world ?s) 0" by (simp add: active_def)
  have e: "exec ?run ?s = Ok ?s'"
    by (simp add: run_simps fanout_one_def try_send_def deref_def)
  have k: "keeps_up 0 ?run ?s"
    by (simp add: run_simps fanout_one_def try_send_def deref_def listening_def)
  have f: "fanned_out ?run ?s = [''B1'', ''B2'']"
    by (simp add: run_simps fanout_one_def try_send_def deref_def)
  have d: "delivered (world ?s) 0 = []" by (simp add: delivered_def queue_def deref_def)
  from ordered_delivery[OF r e, of 0] a k have
    "active (world ?s') 0 \<and> delivered (world ?s') 0 = delivered (world ?s) 0 @ fanned_out ?run ?s"
    by blast
  then have "active (world ?s') 0 \<and> delivered (world ?s') 0 = [''B1'', ''B2'']"
    unfolding d f by simp
  with r a k f e show ?thesis unfolding Let_def by blast
qed

text \<open>
  The claim C2 as it is written fails for a subscriber registered between two broadcasts:
  in the run below, M1 is fanned out, then a subscriber registers, then M2 is fanned
  out. The subscriber has received M2, has not received M1, and was never evicted (it is
  in the active set and its channel is open).
\<close>

theorem late_subscriber_counterexample:
  "let run = [Call 0 (Broadcast ''M1''), Handoff 0, Dispatch (\<lambda>ch. True), Return 0,
              Call 1 (Register ''late''), Handoff 1, Dispatch (\<lambda>ch. True), Return 1,
              Call 0 (Broadcast ''M2''), Handoff 0, Dispatch (\<lambda>ch. True), Return 0]
   in fanned_out run (init :: string config) = [''M1'', ''M2'']
      \<and> exec run init =
          Ok \<lparr>world = \<lparr>clients = [(0, True)], objs = [\<lparr>Messages = 0, ClientInfo = ''late''\<rparr>],
                       chans = [\<lparr>closed = False, received = [''M2'']\<rparr>]\<rparr>,
               loop = Select,
               goroutines = (\<lambda>t. Idle)(1 := Idle, 0 := Idle)\<rparr>"
  unfolding Let_def
  by (simp add: run_simps fanout_one_def try_send_def deref_def)

section \<open>No cross-talk, no replay\<close>

text \<open>
  C4: during a run, what a subscriber receives is a prefix of the messages fanned out
  while it was in the active set; for a subscriber that does not exist yet when the run
  starts, all it has at the end is such a prefix, so a message broadcast before its
  registration is never delivered to it. Two different subscribers never share a
  channel.
\<close>

theorem no_cross_talk:
  assumes "reachable s" and "exec as s = Ok s'"
  shows "(\<exists>ms. prefix ms (fanned_to c as s)
            \<and> delivered (world s') c = delivered (world s) c @ ms)
     \<and> (queue (world s) c = None \<longrightarrow> prefix (delivered (world s') c) (fanned_to c as s))
     \<and> (\<forall>a b ha hb. a \<noteq> b \<longrightarrow> deref (objs (world s')) a = Some ha \<longrightarrow>
            deref (objs (world s')) b = Some hb \<longrightarrow> Messages ha \<noteq> Messages hb)"
proof -
  have inv: "hub_inv s" using assms(1) by (rule reachable_hub_inv)
  have inv': "hub_inv s'" using inv assms(2) by (rule exec_hub_inv)
  from fanned_to_prefix[OF inv assms(2), of c] obtain ms where
    ms: "prefix ms (fanned_to c as s)" "delivered (world s') c = delivered (world s) c @ ms"
    by blast
  have 2: "queue (world s) c = None \<longrightarrow> prefix (delivered (world s') c) (fanned_to c as s)"
    using ms by (simp add: delivered_def)
  have "\<forall>c < length (objs (world s')). Messages (objs (world s') ! c) = c"
    using hub_invD(1)[OF inv'] by (simp add: wf_world_def)
  then have 3: "\<forall>a b ha hb. a \<noteq> b \<longrightarrow> deref (objs (world s')) a = Some ha \<longrightarrow>
            deref (objs (world s')) b = Some hb \<longrightarrow> Messages ha \<noteq> Messages hb"
    by (auto simp: deref_def split: if_splits)
  from ms 2 3 show ?thesis by blast
qed

theorem no_cross_talk_witness:
  "let s = \<lparr>world = NewHub, loop = Select, goroutines = (\<lambda>t. Idle)(0 := Idle)\<rparr> :: string config;
       run = [Call 1 (Register ''late''), Handoff 1, Dispatch (\<lambda>ch. True), Return 1,
              Call 0 (Broadcast ''M2''), Handoff 0, Dispatch (\<lambda>ch. True), Return 0]
   in reachable s \<and> queue (world s) 0 = None \<and> fanned_to 0 run s = [''M2'']
      \<and> (\<exists>s'. exec run s = Ok s' \<and> prefix (delivered (world s') 0) [''M2''])"
proof -
  let ?s = "\<lparr>world = NewHub, loop = Select, goroutines = (\<lambda>t. Idle)(0 := Idle)\<rparr> :: string config"
  let ?run = "[Call 1 (Register ''late''), Handoff 1, Dispatch (\<lambda>ch. True), Return 1,
              Call 0 (Broadcast ''M2''), Handoff 0, Dispatch (\<lambda>ch. True), Return 0]
              :: string action list"
  let ?s' = "\<lparr>world = \<lparr>clients = [(0, True)], objs = [\<lparr>Messages = 0, ClientInfo = ''late''\<rparr>],
                       chans = [\<lparr>closed = False, received = [''M2'']\<rparr>]\<rparr>,
               loop = Select,
               goroutines = (\<lambda>t. Idle)(1 := Idle, 0 := Idle)\<rparr> :: string config"
  have "exec [Call 0 (Broadcast ''M1''), Handoff 0, Dispatch (\<lambda>ch. True), Return 0] init = Ok ?s"
    by (simp add: run_simps)
  then have r: "reachable ?s" by (rule reachableI)
  have q: "queue (world ?s) 0 = None" by (simp add: queue_def deref_def NewHub_def)
  have e: "exec ?run ?s = Ok ?s'"
    by (simp add: run_simps fanout_one_def try_send_def deref_def)
  have f: "fanned_to 0 ?run ?s = [''M2'']"
    by (simp add: run_simps fanout_one_def try_send_def deref_def active_def)
  from no_cross_talk[OF r e, of 0] q have "prefix (delivered (world ?s') 0) (fanned_to 0 ?run ?s)"
    by blast
  then have "prefix (delivered (world ?s') 0) [''M2'']" unfolding f .
  with r q f e show ?thesis unfolding Let_def by blast
qed

section \<open>Calls and the dispatch loop\<close>

text \<open>
  C5: when a call of \<^verbatim>\<open>Register\<close> has returned the subscriber, and a broadcast is
  submitted afterwards, then at the moment the dispatch loop accepts that broadcast the
  registration has been handled: the subscriber is in the active set, or its channel is
  closed (it was evicted or unregistered in between). The fan-out that follows makes its
  attempt on the subscriber if it is active.
\<close>

theorem registration_visible:
  assumes "reachable s0"
    and "goroutines s0 t = Register_return c" and "step (Return t) s0 = Ok s1"
    and "exec as s1 = Ok s2"
    and "step (Call u (Broadcast message)) s2 = Ok s3"
    and "exec bs s3 = Ok s4"
    and "goroutines s4 u = Broadcast_send message" and "step (Handoff u) s4 = Ok s5"
  shows "loop s5 = Case (Bcast message)
     \<and> (\<exists>q. queue (world s5) c = Some q \<and> (active (world s5) c \<or> closed q)
          \<and> (\<exists>s6. step (Dispatch ready) s5 = Ok s6
                \<and> (active (world s5) c \<longrightarrow>
                     (if listening ready (world s5) c
                      then active (world s6) c
                        \<and> queue (world s6) c = Some (q\<lparr>received := received q @ [message]\<rparr>)
                      else \<not> active (world s6) c
                        \<and> queue (world s6) c = Some (q\<lparr>closed := True\<rparr>)))))"
proof -
  have l5: "loop s5 = Case (Bcast message)"
    using assms(7,8) by (auto simp: set_pc_def split: loop_pc.splits)
  have "exec ((Return t # as) @ (Call u (Broadcast message) # bs) @ [Handoff u]) s0 = Ok s5"
    using assms(3,4,5,6,8) by (simp add: exec_append del: step.simps)
  then have r5: "reachable s5" using assms(1) reachable_exec by blast
  have inv5: "hub_inv s5" using r5 by (rule reachable_hub_inv)
  have wf5: "wf_world (world s5)" using inv5 by (rule hub_invD(1))
  from registered_before_broadcast[OF assms(1,2)
      \<open>exec ((Return t # as) @ (Call u (Broadcast message) # bs) @ [Handoff u]) s0 = Ok s5\<close> l5]
  have c: "c < length (objs (world s5))"
    "active (world s5) c \<or> closed (chans (world s5) ! c)" by simp_all
  have q: "queue (world s5) c = Some (chans (world s5) ! c)" using c(1) by (simp add: queue_wf[OF wf5])
  from fanout_attempts[OF inv5 l5, of ready] obtain s6 where s6:
    "step (Dispatch ready) s5 = Ok s6"
    "\<forall>c. active (world s5) c \<longrightarrow>
          (\<exists>q. queue (world s5) c = Some q \<and> \<not> closed q
             \<and> (if listening ready (world s5) c
                then active (world s6) c
                  \<and> queue (world s6) c = Some (q\<lparr>received := received q @ [message]\<rparr>)
                else \<not> active (world s6) c
                  \<and> queue (world s6) c = Some (q\<lparr>closed := True\<rparr>)))"
    by blast
  let ?q = "chans (world s5) ! c"
  have "active (world s5) c \<longrightarrow>
                     (if listening ready (world s5) c
                      then active (world s6) c
                        \<and> queue (world s6) c = Some (?q\<lparr>received := received ?q @ [message]\<rparr>)
                      else \<not> active (world s6) c
                        \<and> queue (world s6) c = Some (?q\<lparr>closed := True\<rparr>))"
    using s6(2) q by (auto simp del: step.simps)
  then show ?thesis using l5 q c(2) s6(1) by (auto simp del: step.simps)
qed

theorem registration_visible_witness:
  "let s0 = \<lparr>world = \<lparr>clients = [], objs = [\<lparr>Messages = 0, ClientInfo = ''a''\<rparr>],
                      chans = [\<lparr>closed = False, received = []\<rparr>]\<rparr>,
              loop = Case (Reg 0),
              goroutines = (\<lambda>t. Idle)(0 := Register_return 0)\<rparr> :: string config;
       s5 = \<lparr>world = \<lparr>clients = [(0, True)], objs = [\<lparr>Messages = 0, ClientInfo = ''a''\<rparr>],
                      chans = [\<lparr>closed = False, received = []\<rparr>]\<rparr>,
              loop = Case (Bcast ''m''),
              goroutines = (\<lambda>t. Idle)(0 := Idle, 1 := Broadcast_return)\<rparr>
   in reachable s0 \<and> goroutines s0 0 = Register_return 0
      \<and> exec [Return 0, Dispatch (\<lambda>ch. True), Call 1 (Broadcast ''m''), Handoff 1] s0 = Ok s5
      \<and> active (world s5) 0
      \<and> (\<exists>s6. step (Dispatch (\<lambda>ch. True)) s5 = Ok s6 \<and> active (world s6) 0
            \<and> queue (world s6) 0 = Some \<lparr>closed = False, received = [''m'']\<rparr>)"
proof -
  let ?W0 = "\<lparr>clients = [], objs = [\<lparr>Messages = 0, ClientInfo = ''a''\<rparr>],
                      chans = [\<lparr>closed = False, received = []\<rparr>]\<rparr> :: string world"
  let ?W1 = "\<lparr>clients = [(0, True)], objs = [\<lparr>Messages = 0, ClientInfo = ''a''\<rparr>],
                      chans = [\<lparr>closed = False, received = []\<rparr>]\<rparr> :: string world"
  let ?s0 = "\<lparr>world = ?W0, loop = Case (Reg 0),
              goroutines = (\<lambda>t. Idle)(0 := Register_return 0)\<rparr>"
  let ?s1 = "\<lparr>world = ?W0, loop = Case (Reg 0), goroutines = (\<lambda>t. Idle)(0 := Idle)\<rparr>"
  let ?s2 = "\<lparr>world = ?W1, loop = Select, goroutines = (\<lambda>t. Idle)(0 := Idle)\<rparr>"
  let ?s3 = "\<lparr>world = ?W1, loop = Select,
              goroutines = (\<lambda>t. Idle)(0 := Idle, 1 := Broadcast_send ''m'')\<rparr>"
  let ?s5 = "\<lparr>world = ?W1, loop = Case (Bcast ''m''),
              goroutines = (\<lambda>t. Idle)(0 := Idle, 1 := Broadcast_return)\<rparr>"
  have "exec [Call 0 (Register ''a''), Handoff 0] init = Ok ?s0"
    by (simp add: run_simps)
  then have r: "reachable ?s0" by (rule reachableI)
  have t: "goroutines ?s0 0 = Register_return 0" by simp
  have 1: "step (Return 0) ?s0 = Ok ?s1" by (simp add: set_pc_def)
  have 2: "exec [Dispatch (\<lambda>ch. True)] ?s1 = Ok ?s2" by simp
  have 3: "step (Call 1 (Broadcast ''m'')) ?s2 = Ok ?s3" by (simp add: set_pc_def)
  have 4: "exec [] ?s3 = Ok ?s3" by simp
  have 5: "goroutines ?s3 1 = Broadcast_send ''m''" by simp
  have 6: "step (Handoff 1) ?s3 = Ok ?s5" by (simp add: set_pc_def)
  have e: "exec [Return 0, Dispatch (\<lambda>ch. True), Call 1 (Broadcast ''m''), Handoff 1] ?s0 = Ok ?s5"
    by (simp add: set_pc_def)
  have a: "active (world ?s5) 0" "listening (\<lambda>ch. True) (world ?s5) 0"
    "queue (world ?s5) 0 = Some \<lparr>closed = False, received = []\<rparr>"
    by (simp_all add: active_def listening_def queue_def deref_def)
  from registration_visible[OF r t 1 2 3 4 5 6, of "\<lambda>ch. True"] a
  have "\<exists>s6. step (Dispatch (\<lambda>ch. True)) ?s5 = Ok s6 \<and> active (world s6) 0
            \<and> queue (world s6) 0 = Some \<lparr>closed = False, received = [''m'']\<rparr>"
    by (auto simp del: step.simps)
  with r t e a(1) show ?thesis unfolding Let_def by blast
qed

text \<open>
  C6: a call of \<^verbatim>\<open>Broadcast\<close> puts its goroutine into the send on the unbuffered
  channel and changes nothing else. From there the call cannot return, and it gets past
  the send only in a hand-over, which needs the dispatch loop at its \<^verbatim>\<open>select\<close>:
  every run in which the goroutine is past the send contains that hand-over, and while
  the loop is busy the hand-over is not possible. At the hand-over the loop holds the
  request, and the call can return at once, before the fan-out has run: the world is
  still what it was, and the waiting subscribers get the message only in the case of the
  \<^verbatim>\<open>select\<close> that follows.
\<close>

theorem broadcast_blocks_until_accepted:
  assumes "reachable s" and "goroutines s t = Idle"
  shows "\<exists>s0. step (Call t (Broadcast message)) s = Ok s0
     \<and> goroutines s0 t = Broadcast_send message \<and> world s0 = world s \<and> loop s0 = loop s
     \<and> (\<forall>as s'. exec as s0 = Ok s' \<longrightarrow> goroutines s' t \<noteq> Broadcast_send message \<longrightarrow>
          (\<exists>as1 as2 s1. as = as1 @ Handoff t # as2 \<and> exec as1 s0 = Ok s1
             \<and> goroutines s1 t = Broadcast_send message \<and> loop s1 = Select
             \<and> step (Handoff t) s1
                 = Ok (set_pc t Broadcast_return (s1\<lparr>loop := Case (Bcast message)\<rparr>))))
     \<and> (\<forall>as s1. exec as s0 = Ok s1 \<longrightarrow> goroutines s1 t = Broadcast_send message \<longrightarrow>
          step (Return t) s1 = Disabled
          \<and> (loop s1 \<noteq> Select \<longrightarrow> step (Handoff t) s1 = Disabled)
          \<and> (loop s1 = Select \<longrightarrow>
               (\<exists>s2 s3. step (Handoff t) s1 = Ok s2 \<and> loop s2 = Case (Bcast message)
                  \<and> step (Return t) s2 = Ok s3 \<and> goroutines s3 t = Idle
                  \<and> loop s3 = Case (Bcast message) \<and> world s3 = world s1
                  \<and> (\<forall>ready. \<exists>s4. step (Dispatch ready) s3 = Ok s4
                        \<and> (\<forall>c. active (world s3) c \<longrightarrow> listening ready (world s3) c \<longrightarrow>
                               delivered (world s4) c = delivered (world s3) c @ [message])))))"
proof -
  let ?s0 = "set_pc t (Broadcast_send message) s"
  have st: "step (Call t (Broadcast message)) s = Ok ?s0" using assms(2) by simp
  have g0: "goroutines ?s0 t = Broadcast_send message" "world ?s0 = world s" "loop ?s0 = loop s"
    by (simp_all add: set_pc_def)
  have r0: "reachable ?s0" using reachable_exec[OF assms(1), of "[Call t (Broadcast message)]" ?s0] st
    by simp
  have snd: "sending (goroutines ?s0 t) = Some (Bcast message, Broadcast_return)"
    by (simp add: g0)
  have a: "\<forall>as s'. exec as ?s0 = Ok s' \<longrightarrow> goroutines s' t \<noteq> Broadcast_send message \<longrightarrow>
          (\<exists>as1 as2 s1. as = as1 @ Handoff t # as2 \<and> exec as1 ?s0 = Ok s1
             \<and> goroutines s1 t = Broadcast_send message \<and> loop s1 = Select
             \<and> step (Handoff t) s1
                 = Ok (set_pc t Broadcast_return (s1\<lparr>loop := Case (Bcast message)\<rparr>)))"
    using handed_over_before_leaving[OF snd] unfolding g0(1) by blast
  have b: "\<forall>as s1. exec as ?s0 = Ok s1 \<longrightarrow> goroutines s1 t = Broadcast_send message \<longrightarrow>
          step (Return t) s1 = Disabled
          \<and> (loop s1 \<noteq> Select \<longrightarrow> step (Handoff t) s1 = Disabled)
          \<and> (loop s1 = Select \<longrightarrow>
               (\<exists>s2 s3. step (Handoff t) s1 = Ok s2 \<and> loop s2 = Case (Bcast message)
                  \<and> step (Return t) s2 = Ok s3 \<and> goroutines s3 t = Idle
                  \<and> loop s3 = Case (Bcast message) \<and> world s3 = world s1
                  \<and> (\<forall>ready. \<exists>s4. step (Dispatch ready) s3 = Ok s4
                        \<and> (\<forall>c. active (world s3) c \<longrightarrow> listening ready (world s3) c \<longrightarrow>
                               delivered (world s4) c = delivered (world s3) c @ [message]))))"
  proof (intro allI impI)
    fix as s1 assume e: "exec as ?s0 = Ok s1" and g: "goroutines s1 t = Broadcast_send message"
    have r1: "reachable s1" using r0 e by (rule reachable_exec)
    have 1: "step (Return t) s1 = Disabled" using g by simp
    have 2: "loop s1 \<noteq> Select \<longrightarrow> step (Handoff t) s1 = Disabled"
      by (cases "loop s1") simp_all
    have 3: "loop s1 = Select \<longrightarrow>
               (\<exists>s2 s3. step (Handoff t) s1 = Ok s2 \<and> loop s2 = Case (Bcast message)
                  \<and> step (Return t) s2 = Ok s3 \<and> goroutines s3 t = Idle
                  \<and> loop s3 = Case (Bcast message) \<and> world s3 = world s1
                  \<and> (\<forall>ready. \<exists>s4. step (Dispatch ready) s3 = Ok s4
                        \<and> (\<forall>c. active (world s3) c \<longrightarrow> listening ready (world s3) c \<longrightarrow>
                               delivered (world s4) c = delivered (world s3) c @ [message])))"
    proof
      assume sel: "loop s1 = Select"
      let ?s2 = "set_pc t Broadcast_return (s1\<lparr>loop := Case (Bcast message)\<rparr>)"
      let ?s3 = "set_pc t Idle ?s2"
      have h: "step (Handoff t) s1 = Ok ?s2" using sel g by simp
      have rt: "step (Return t) ?s2 = Ok ?s3" by (simp add: set_pc_def)
      have p: "loop ?s2 = Case (Bcast message)" "goroutines ?s3 t = Idle"
        "loop ?s3 = Case (Bcast message)" "world ?s3 = world s1"
        by (simp_all add: set_pc_def)
      have "exec [Handoff t, Return t] s1 = Ok ?s3" using h rt by (simp del: step.simps)
      then have "reachable ?s3" using r1 reachable_exec by blast
      then have inv3: "hub_inv ?s3" by (rule reachable_hub_inv)
      have "\<forall>ready. \<exists>s4. step (Dispatch ready) ?s3 = Ok s4
                        \<and> (\<forall>c. active (world ?s3) c \<longrightarrow> listening ready (world ?s3) c \<longrightarrow>
                               delivered (world s4) c = delivered (world ?s3) c @ [message])"
        using fanout_delivers[OF inv3 p(3)] by blast
      then show "\<exists>s2 s3. step (Handoff t) s1 = Ok s2 \<and> loop s2 = Case (Bcast message)
                  \<and> step (Return t) s2 = Ok s3 \<and> goroutines s3 t = Idle
                  \<and> loop s3 = Case (Bcast message) \<and> world s3 = world s1
                  \<and> (\<forall>ready. \<exists>s4. step (Dispatch ready) s3 = Ok s4
                        \<and> (\<forall>c. active (world s3) c \<longrightarrow> listening ready (world s3) c \<longrightarrow>
                               delivered (world s4) c = delivered (world s3) c @ [message]))"
        using h rt p by blast
    qed
    from 1 2 3 show "step (Return t) s1 = Disabled
          \<and> (loop s1 \<noteq> Select \<longrightarrow> step (Handoff t) s1 = Disabled)
          \<and> (loop s1 = Select \<longrightarrow>
               (\<exists>s2 s3. step (Handoff t) s1 = Ok s2 \<and> loop s2 = Case (Bcast message)
                  \<and> step (Return t) s2 = Ok s3 \<and> goroutines s3 t = Idle
                  \<and> loop s3 = Case (Bcast message) \<and> world s3 = world s1
                  \<and> (\<forall>ready. \<exists>s4. step (Dispatch ready) s3 = Ok s4
                        \<and> (\<forall>c. active (world s3) c \<longrightarrow> listening ready (world s3) c \<longrightarrow>
                               delivered (world s4) c = delivered (world s3) c @ [message]))))"
      by blast
  qed
  from st g0 a b show ?thesis by blast
qed

theorem broadcast_blocks_until_accepted_witness:
  "let s = \<lparr>world = \<lparr>clients = [(0, True)], objs = [\<lparr>Messages = 0, ClientInfo = ''a''\<rparr>],
                     chans = [\<lparr>closed = False, received = []\<rparr>]\<rparr>,
             loop = Select,
             goroutines = (\<lambda>t. Idle)(0 := Idle)\<rparr> :: string config
   in reachable s \<and> goroutines s 1 = Idle
      \<and> (\<exists>s0 s3 s4. step (Call 1 (Broadcast ''m'')) s = Ok s0
            \<and> goroutines s0 1 = Broadcast_send ''m''
            \<and> step (Return 1) s0 = Disabled
            \<and> exec [Handoff 1, Return 1] s0 = Ok s3
            \<and> goroutines s3 1 = Idle \<and> loop s3 = Case (Bcast ''m'')
            \<and> delivered (world s3) 0 = []
            \<and> step (Dispatch (\<lambda>ch. True)) s3 = Ok s4
            \<and> delivered (world s4) 0 = [''m''])"
proof -
  let ?s = "\<lparr>world = \<lparr>clients = [(0, True)], objs = [\<lparr>Messages = 0, ClientInfo = ''a''\<rparr>],
                     chans = [\<lparr>closed = False, received = []\<rparr>]\<rparr>,
             loop = Select,
             goroutines = (\<lambda>t. Idle)(0 := Idle)\<rparr> :: string config"
  have "exec [Call 0 (Register ''a''), Handoff 0, Dispatch (\<lambda>ch. True), Return 0] init = Ok ?s"
    by (simp add: run_simps)
  then have r: "reachable ?s" by (rule reachableI)
  have g: "goroutines ?s 1 = Idle" by simp
  from broadcast_blocks_until_accepted[OF r g, of "''m''"] obtain s0 where s0:
    "step (Call 1 (Broadcast ''m'')) ?s = Ok s0"
    "goroutines s0 1 = Broadcast_send ''m''" "world s0 = world ?s" "loop s0 = loop ?s"
    "\<forall>as s1. exec as s0 = Ok s1 \<longrightarrow> goroutines s1 1 = Broadcast_send ''m'' \<longrightarrow>
          step (Return 1) s1 = Disabled
          \<and> (loop s1 \<noteq> Select \<longrightarrow> step (Handoff 1) s1 = Disabled)
          \<and> (loop s1 = Select \<longrightarrow>
               (\<exists>s2 s3. step (Handoff 1) s1 = Ok s2 \<and> loop s2 = Case (Bcast ''m'')
                  \<and> step (Return 1) s2 = Ok s3 \<and> goroutines s3 1 = Idle
                  \<and> loop s3 = Case (Bcast ''m'') \<and> world s3 = world s1
                  \<and> (\<forall>ready. \<exists>s4. step (Dispatch ready) s3 = Ok s4
                        \<and> (\<forall>c. active (world s3) c \<longrightarrow> listening ready (world s3) c \<longrightarrow>
                               delivered (world s4) c = delivered (world s3) c @ [''m'']))))"
    by blast
  have e0: "exec [] s0 = Ok s0" by simp
  have sel: "loop s0 = Select" using s0(4) by simp
  from s0(5) e0 s0(2) sel obtain s2 s3 where h:
    "step (Return 1) s0 = Disabled"
    "step (Handoff 1) s0 = Ok s2" "step (Return 1) s2 = Ok s3" "goroutines s3 1 = Idle"
    "loop s3 = Case (Bcast ''m'')" "world s3 = world s0"
    "\<forall>ready. \<exists>s4. step (Dispatch ready) s3 = Ok s4
         \<and> (\<forall>c. active (world s3) c \<longrightarrow> listening ready (world s3) c \<longrightarrow>
                delivered (world s4) c = delivered (world s3) c @ [''m''])"
    by blast
  have w3: "world s3 = world ?s" using h(6) s0(3) by simp
  have a: "active (world s3) 0" "listening (\<lambda>ch. True) (world s3) 0"
    "delivered (world s3) 0 = []"
    unfolding w3 by (simp_all add: active_def listening_def delivered_def queue_def deref_def)
  from h(7) obtain s4 where s4: "step (Dispatch (\<lambda>ch. True)) s3 = Ok s4"
    "\<forall>c. active (world s3) c \<longrightarrow> listening (\<lambda>ch. True) (world s3) c \<longrightarrow>
                delivered (world s4) c = delivered (world s3) c @ [''m'']"
    by blast
  have d4: "delivered (world s4) 0 = [''m'']" using s4(2) a by simp
  have e: "exec [Handoff 1, Return 1] s0 = Ok s3" using h(2,3) by (simp del: step.simps)
  from r g s0(1,2) h(1) e h(4,5) a(3) s4(1) d4 show ?thesis unfolding Let_def by blast
qed

text \<open>
  C9, as amended: \<^verbatim>\<open>Register(info)\<close> allocates a new HubClient with the label and
  a new, open channel on which nothing was received, leaves the active set alone, and
  sends the client to the dispatch loop. The send blocks until the loop, at its
  \<^verbatim>\<open>select\<close>, receives the request: before that the call cannot return, and every run
  in which the goroutine is past the send contains the hand-over. At the hand-over the
  call can return at once, without waiting for the loop to handle the request: the client
  is then not yet in the active set, and its channel is open.
\<close>

theorem register_returns_subscriber:
  assumes "reachable s" and "goroutines s t = Idle" and "c = length (objs (world s))"
  shows "\<exists>s0. step (Call t (Register info)) s = Ok s0
     \<and> goroutines s0 t = Register_send c \<and> loop s0 = loop s
     \<and> deref (objs (world s)) c = None
     \<and> deref (objs (world s0)) c = Some \<lparr>Messages = length (chans (world s)), ClientInfo = info\<rparr>
     \<and> queue (world s0) c = Some \<lparr>closed = False, received = []\<rparr>
     \<and> clients (world s0) = clients (world s)
     \<and> (\<forall>as s'. exec as s0 = Ok s' \<longrightarrow> goroutines s' t \<noteq> Register_send c \<longrightarrow>
          (\<exists>as1 as2 s1. as = as1 @ Handoff t # as2 \<and> exec as1 s0 = Ok s1
             \<and> goroutines s1 t = Register_send c \<and> loop s1 = Select
             \<and> step (Handoff t) s1
                 = Ok (set_pc t (Register_return c) (s1\<lparr>loop := Case (Reg c)\<rparr>))))
     \<and> (\<forall>as s1. exec as s0 = Ok s1 \<longrightarrow> goroutines s1 t = Register_send c \<longrightarrow>
          step (Return t) s1 = Disabled
          \<and> (loop s1 \<noteq> Select \<longrightarrow> step (Handoff t) s1 = Disabled)
          \<and> (loop s1 = Select \<longrightarrow>
               (\<exists>s2 s3. step (Handoff t) s1 = Ok s2 \<and> loop s2 = Case (Reg c)
                  \<and> step (Return t) s2 = Ok s3 \<and> goroutines s3 t = Idle
                  \<and> loop s3 = Case (Reg c) \<and> world s3 = world s1
                  \<and> \<not> active (world s3) c
                  \<and> (\<exists>q. queue (world s3) c = Some q \<and> \<not> closed q))))"
proof -
  have inv: "hub_inv s" using assms(1) by (rule reachable_hub_inv)
  have wf: "wf_world (world s)" using inv by (rule hub_invD(1))
  let ?s0 = "set_pc t (Register_send c) (s\<lparr>world := snd (new_HubClient info (world s))\<rparr>)"
  have st: "step (Call t (Register info)) s = Ok ?s0"
    using assms(2,3) by (simp add: new_HubClient_def)
  have r0: "reachable ?s0" using reachable_exec[OF assms(1), of "[Call t (Register info)]" ?s0] st
    by (simp del: step.simps)
  have 1: "goroutines ?s0 t = Register_send c" "loop ?s0 = loop s" by (simp_all add: set_pc_def)
  have 2: "deref (objs (world s)) c = None" using assms(3) by (simp add: deref_def)
  have 3: "deref (objs (world ?s0)) c = Some \<lparr>Messages = length (chans (world s)), ClientInfo = info\<rparr>"
    using assms(3) by (simp add: deref_def set_pc_def new_HubClient_def)
  have 4: "queue (world ?s0) c = Some \<lparr>closed = False, received = []\<rparr>"
    using assms(3) by (simp add: set_pc_def queue_new_HubClient[OF wf])
  have 5: "clients (world ?s0) = clients (world s)" by (simp add: set_pc_def new_HubClient_def)
  have snd: "sending (goroutines ?s0 t) = Some (Reg c, Register_return c)" by (simp add: 1)
  have a: "\<forall>as s'. exec as ?s0 = Ok s' \<longrightarrow> goroutines s' t \<noteq> Register_send c \<longrightarrow>
          (\<exists>as1 as2 s1. as = as1 @ Handoff t # as2 \<and> exec as1 ?s0 = Ok s1
             \<and> goroutines s1 t = Register_send c \<and> loop s1 = Select
             \<and> step (Handoff t) s1
                 = Ok (set_pc t (Register_return c) (s1\<lparr>loop := Case (Reg c)\<rparr>)))"
    using handed_over_before_leaving[OF snd] unfolding 1(1) by blast
  have b: "\<forall>as s1. exec as ?s0 = Ok s1 \<longrightarrow> goroutines s1 t = Register_send c \<longrightarrow>
          step (Return t) s1 = Disabled
          \<and> (loop s1 \<noteq> Select \<longrightarrow> step (Handoff t) s1 = Disabled)
          \<and> (loop s1 = Select \<longrightarrow>
               (\<exists>s2 s3. step (Handoff t) s1 = Ok s2 \<and> loop s2 = Case (Reg c)
                  \<and> step (Return t) s2 = Ok s3 \<and> goroutines s3 t = Idle
                  \<and> loop s3 = Case (Reg c) \<and> world s3 = world s1
                  \<and> \<not> active (world s3) c
                  \<and> (\<exists>q. queue (world s3) c = Some q \<and> \<not> closed q)))"
  proof (intro allI impI)
    fix as s1 assume e: "exec as ?s0 = Ok s1" and g: "goroutines s1 t = Register_send c"
    have r1: "reachable s1" using r0 e by (rule reachable_exec)
    have inv1: "hub_inv s1" using r1 by (rule reachable_hub_inv)
    have "pending s1 c" using g by (auto simp: pending_def)
    from hub_invD(2)[OF inv1 this] have c: "c < length (objs (world s1))"
      "\<not> active (world s1) c" "\<not> closed (chans (world s1) ! c)" by simp_all
    have q: "queue (world s1) c = Some (chans (world s1) ! c)"
      using c(1) by (simp add: queue_wf[OF hub_invD(1)[OF inv1]])
    have i: "step (Return t) s1 = Disabled" using g by simp
    have ii: "loop s1 \<noteq> Select \<longrightarrow> step (Handoff t) s1 = Disabled"
      by (cases "loop s1") simp_all
    have iii: "loop s1 = Select \<longrightarrow>
               (\<exists>s2 s3. step (Handoff t) s1 = Ok s2 \<and> loop s2 = Case (Reg c)
                  \<and> step (Return t) s2 = Ok s3 \<and> goroutines s3 t = Idle
                  \<and> loop s3 = Case (Reg c) \<and> world s3 = world s1
                  \<and> \<not> active (world s3) c
                  \<and> (\<exists>q. queue (world s3) c = Some q \<and> \<not> closed q))"
    proof
      assume sel: "loop s1 = Select"
      let ?s2 = "set_pc t (Register_return c) (s1\<lparr>loop := Case (Reg c)\<rparr>)"
      let ?s3 = "set_pc t Idle ?s2"
      have h: "step (Handoff t) s1 = Ok ?s2" using sel g by simp
      have rt: "step (Return t) ?s2 = Ok ?s3" by (simp add: set_pc_def)
      have p: "loop ?s2 = Case (Reg c)" "goroutines ?s3 t = Idle"
        "loop ?s3 = Case (Reg c)" "world ?s3 = world s1"
        by (simp_all add: set_pc_def)
      have "\<not> active (world ?s3) c" "\<exists>q. queue (world ?s3) c = Some q \<and> \<not> closed q"
        using c q by (simp_all add: p(4))
      then show "\<exists>s2 s3. step (Handoff t) s1 = Ok s2 \<and> loop s2 = Case (Reg c)
                  \<and> step (Return t) s2 = Ok s3 \<and> goroutines s3 t = Idle
                  \<and> loop s3 = Case (Reg c) \<and> world s3 = world s1
                  \<and> \<not> active (world s3) c
                  \<and> (\<exists>q. queue (world s3) c = Some q \<and> \<not> closed q)"
        using h rt p by blast
    qed
    from i ii iii show "step (Return t) s1 = Disabled
          \<and> (loop s1 \<noteq> Select \<longrightarrow> step (Handoff t) s1 = Disabled)
          \<and> (loop s1 = Select \<longrightarrow>
               (\<exists>s2 s3. step (Handoff t) s1 = Ok s2 \<and> loop s2 = Case (Reg c)
                  \<and> step (Return t) s2 = Ok s3 \<and> goroutines s3 t = Idle
                  \<and> loop s3 = Case (Reg c) \<and> world s3 = world s1
                  \<and> \<not> active (world s3) c
                  \<and> (\<exists>q. queue (world s3) c = Some q \<and> \<not> closed q)))"
      by blast
  qed
  from st 1 2 3 4 5 a b show ?thesis by blast
qed

theorem register_returns_subscriber_witness:
  "reachable (init :: string config) \<and> goroutines (init :: string config) 0 = Idle
   \<and> (0 :: nat) = length (objs (world (init :: string config)))
   \<and> (\<exists>s0 s3. step (Call 0 (Register ''a'')) (init :: string config) = Ok s0
         \<and> goroutines s0 0 = Register_send 0
         \<and> deref (objs (world s0)) 0 = Some \<lparr>Messages = 0, ClientInfo = ''a''\<rparr>
         \<and> queue (world s0) 0 = Some \<lparr>closed = False, received = []\<rparr>
         \<and> step (Return 0) s0 = Disabled
         \<and> exec [Handoff 0, Return 0] s0 = Ok s3
         \<and> goroutines s3 0 = Idle \<and> loop s3 = Case (Reg 0) \<and> \<not> active (world s3) 0)"
proof -
  have "exec [] init = Ok (init :: string config)" by simp
  then have r: "reachable (init :: string config)" by (rule reachableI)
  have g: "goroutines (init :: string config) 0 = Idle" by (simp add: init_def)
  have c: "(0 :: nat) = length (objs (world (init :: string config)))"
    by (simp add: init_def NewHub_def)
  have l: "loop (init :: string config) = Select" by (simp add: init_def)
  have z: "length (chans (world (init :: string config))) = 0" by (simp add: init_def NewHub_def)
  from register_returns_subscriber[OF r g c, of "''a''"] obtain s0 where s0:
    "step (Call 0 (Register ''a'')) (init :: string config) = Ok s0"
    "goroutines s0 0 = Register_send 0" "loop s0 = loop (init :: string config)"
    "deref (objs (world s0)) 0
       = Some \<lparr>Messages = length (chans (world (init :: string config))), ClientInfo = ''a''\<rparr>"
    "queue (world s0) 0 = Some \<lparr>closed = False, received = []\<rparr>"
    "\<forall>as s1. exec as s0 = Ok s1 \<longrightarrow> goroutines s1 0 = Register_send 0 \<longrightarrow>
          step (Return 0) s1 = Disabled
          \<and> (loop s1 \<noteq> Select \<longrightarrow> step (Handoff 0) s1 = Disabled)
          \<and> (loop s1 = Select \<longrightarrow>
               (\<exists>s2 s3. step (Handoff 0) s1 = Ok s2 \<and> loop s2 = Case (Reg 0)
                  \<and> step (Return 0) s2 = Ok s3 \<and> goroutines s3 0 = Idle
                  \<and> loop s3 = Case (Reg 0) \<and> world s3 = world s1
                  \<and> \<not> active (world s3) 0
                  \<and> (\<exists>q. queue (world s3) 0 = Some q \<and> \<not> closed q)))"
    by blast
  have e0: "exec [] s0 = Ok s0" by simp
  have sel: "loop s0 = Select" using s0(3) l by simp
  from s0(6) e0 s0(2) sel obtain s2 s3 where h:
    "step (Return 0) s0 = Disabled"
    "step (Handoff 0) s0 = Ok s2" "step (Return 0) s2 = Ok s3" "goroutines s3 0 = Idle"
    "loop s3 = Case (Reg 0)" "\<not> active (world s3) 0"
    by blast
  have e: "exec [Handoff 0, Return 0] s0 = Ok s3" using h(2,3) by (simp del: step.simps)
  have d: "deref (objs (world s0)) 0 = Some \<lparr>Messages = 0, ClientInfo = ''a''\<rparr>"
    using s0(4) z by simp
  from r g c s0(1,2) d s0(5) h(1) e h(4,5,6) show ?thesis by blast
qed

text \<open>
  The claim C9 as it is written, that \<^verbatim>\<open>Register\<close> returns immediately, fails when
  the dispatch loop is busy: in the run below a broadcast request has been received by
  the loop and not handled yet when \<^verbatim>\<open>Register\<close> is called. The call has allocated its
  client and is blocked in its send; it can neither hand the request over nor return. It
  gets on only after the loop has run the broadcast case and is back at its
  \<^verbatim>\<open>select\<close>.
\<close>

theorem register_blocked_counterexample:
  "let s = \<lparr>world = \<lparr>clients = [], objs = [\<lparr>Messages = 0, ClientInfo = ''a''\<rparr>],
                     chans = [\<lparr>closed = False, received = []\<rparr>]\<rparr>,
             loop = Case (Bcast ''m''),
             goroutines = (\<lambda>t. Idle)(0 := Broadcast_return, 1 := Register_send 0)\<rparr>
               :: string config
   in exec [Call 0 (Broadcast ''m''), Handoff 0, Call 1 (Register ''a'')] init = Ok s
      \<and> step (Return 1) s = Disabled
      \<and> step (Handoff 1) s = Disabled
      \<and> exec [Dispatch (\<lambda>ch. True), Handoff 1, Return 1] s
          = Ok \<lparr>world = \<lparr>clients = [], objs = [\<lparr>Messages = 0, ClientInfo = ''a''\<rparr>],
                         chans = [\<lparr>closed = False, received = []\<rparr>]\<rparr>,
                 loop = Case (Reg 0),
                 goroutines = (\<lambda>t. Idle)(0 := Broadcast_return, 1 := Idle)\<rparr>"
  unfolding Let_def by (simp add: run_simps)

end
